theory Spec2Isabelle
  imports Main
begin

section \<open>Bytes, files and the Python primitives used by \<open>buffer_work_space.py\<close>\<close>

text \<open>
  A Python \<open>bytes\<close> value is a list of 8-bit characters.  The file object \<open>fp\<close> is
  modelled by its content: every read of the source is preceded by a \<open>seek\<close> to an
  absolute offset, so the handle's own cursor never influences a result.
\<close>

type_synonym bytes = "char list"

abbreviation CR :: char where "CR \<equiv> CHR 0x0D"
abbreviation LF :: char where "LF \<equiv> CHR 0x0A"

datatype error = AssertionError | ValueError | AttributeError

text \<open>\<open>new_lines = ["\r\n", "\n", "\r"]\<close>, the module-level table.\<close>

definition new_lines :: "string list" where
  "new_lines = [[CR, LF], [LF], [CR]]"

text \<open>
  \<open>str.encode(encoding)\<close> is a library codec; the class stores the codec's name and
  applies it to the three strings of \<open>new_lines\<close> only.  The codec is represented by
  its encoding function.  UTF-8 (the default), ASCII and Latin-1 leave these three
  ASCII strings unchanged.
\<close>

definition utf_8 :: "string \<Rightarrow> bytes" where
  "utf_8 s = s"

text \<open>
  \<open>fp.seek(pos); fp.read(n)\<close>: the bytes from offset \<open>pos\<close>, at most \<open>n\<close> of them, all
  of them to the end of the file when \<open>n\<close> is negative; reading at or past the end of
  the file gives the empty byte string.  Every call site has \<open>0 \<le> pos\<close>.
\<close>

definition seek_read :: "bytes \<Rightarrow> int \<Rightarrow> int \<Rightarrow> bytes" where
  "seek_read f pos n =
     (if n < 0 then drop (nat pos) f else take (nat n) (drop (nat pos) f))"

text \<open>
  The start offsets at which \<open>sub\<close> occurs in \<open>s\<close>, in increasing order
  (\<open>sub == s[i:i+len(sub)]\<close>).  \<open>bytes.find\<close> is the lowest of them, \<open>bytes.rfind\<close> the
  highest, both \<open>-1\<close> when there is none.
\<close>

definition occurrences :: "bytes \<Rightarrow> bytes \<Rightarrow> nat list" where
  "occurrences s sub =
     filter (\<lambda>i. take (length sub) (drop i s) = sub) [0 ..< length s + 1 - length sub]"

definition bytes_find :: "bytes \<Rightarrow> bytes \<Rightarrow> int" where
  "bytes_find s sub = (case occurrences s sub of [] \<Rightarrow> - 1 | i # _ \<Rightarrow> int i)"

definition bytes_rfind :: "bytes \<Rightarrow> bytes \<Rightarrow> int" where
  "bytes_rfind s sub =
     (if occurrences s sub = [] then - 1 else int (last (occurrences s sub)))"

text \<open>\<open>line.endswith(n)\<close>.\<close>

definition endswith :: "bytes \<Rightarrow> bytes \<Rightarrow> bool" where
  "endswith line n \<longleftrightarrow>
     length n \<le> length line \<and> drop (length line - length n) line = n"

text \<open>
  \<open>sorted(xs, key=len, reverse=True)\<close>: Python's sort is stable, and with
  \<open>reverse=True\<close> elements of equal key keep their original order.
\<close>

definition sorted_len_reverse :: "bytes list \<Rightarrow> bytes list" where
  "sorted_len_reverse xs = rev (sort_key length (rev xs))"

section \<open>The module's helper functions\<close>

text \<open>\<open>_get_file_size\<close>.\<close>

definition get_file_size :: "bytes \<Rightarrow> int" where
  "get_file_size f = int (length f)"

text \<open>
  \<open>_remove_trailing_new_line\<close>: the first candidate, longest first, that ends the line
  is cut off by the slice \<open>line[:-len(n)]\<close> (which is empty for an empty \<open>n\<close>, since
  \<open>-0 = 0\<close>).
\<close>

fun remove_first_match :: "bytes \<Rightarrow> bytes list \<Rightarrow> bytes" where
  "remove_first_match line [] = line"
| "remove_first_match line (n # ns) =
     (if endswith line n
      then (if length n = 0 then [] else take (length line - length n) line)
      else remove_first_match line ns)"

definition remove_trailing_new_line :: "bytes \<Rightarrow> bytes list \<Rightarrow> bytes" where
  "remove_trailing_new_line line nls = remove_first_match line (sorted_len_reverse nls)"

text \<open>\<open>_find_furthest_new_line\<close>; \<open>max\<close> of an empty list raises \<open>ValueError\<close>.\<close>

definition find_furthest_new_line :: "bytes \<Rightarrow> bytes list \<Rightarrow> error + int" where
  "find_furthest_new_line buf nls =
     (case map (bytes_rfind buf) nls of
        [] \<Rightarrow> Inl ValueError
      | p # ps \<Rightarrow> Inr (fold max ps p))"

text \<open>\<open>_is_partially_read_new_line\<close>.\<close>

fun is_partially_read_new_line :: "bytes \<Rightarrow> bytes list \<Rightarrow> bool" where
  "is_partially_read_new_line b [] = False"
| "is_partially_read_new_line b (n # ns) =
     (if bytes_find n b \<ge> 1 then True else is_partially_read_new_line b ns)"

text \<open>
  \<open>_get_what_to_read_next\<close>.  The \<open>while\<close> loop is \<open>walk_back\<close>; it ends because
  \<open>seek_position\<close> decreases and the loop stops at \<open>0\<close>.
\<close>

function walk_back :: "bytes \<Rightarrow> bytes list \<Rightarrow> int \<Rightarrow> int \<Rightarrow> int \<times> int" where
  "walk_back f nls seek_position read_size =
     (if seek_position > 0
      then (if is_partially_read_new_line (seek_read f seek_position 1) nls
            then walk_back f nls (seek_position - 1) (read_size + 1)
            else (seek_position, read_size))
      else (seek_position, read_size))"
  by pat_completeness auto
termination
  by (relation "measure (\<lambda>(f, nls, seek_position, read_size). nat seek_position)") auto

declare walk_back.simps [simp del]

definition get_what_to_read_next :: "bytes \<Rightarrow> int \<Rightarrow> int \<Rightarrow> bytes list \<Rightarrow> int \<times> int" where
  "get_what_to_read_next f previously_read_position chunk_sz nls =
     (case walk_back f nls (max (previously_read_position - chunk_sz) 0) chunk_sz of
        (seek_position, read_size) \<Rightarrow>
          (seek_position, min (previously_read_position - seek_position) read_size))"

text \<open>\<open>_get_next_chunk\<close>.\<close>

definition get_next_chunk :: "bytes \<Rightarrow> int \<Rightarrow> int \<Rightarrow> bytes list \<Rightarrow> bytes \<times> int" where
  "get_next_chunk f previously_read_position chunk_sz nls =
     (case get_what_to_read_next f previously_read_position chunk_sz nls of
        (seek_position, read_size) \<Rightarrow> (seek_read f seek_position read_size, seek_position))"

section \<open>The class \<open>BufferWorkSpace\<close>\<close>

record BufferWorkSpace =
  fp :: bytes
  read_position :: int
  read_buffer :: "bytes option"
  chunk_size :: int
  encoding :: "string \<Rightarrow> bytes"
  new_lines_bytes :: "bytes list"

text \<open>\<open>__init__\<close>.\<close>

definition init :: "bytes \<Rightarrow> int \<Rightarrow> (string \<Rightarrow> bytes) \<Rightarrow> BufferWorkSpace" where
  "init f chunk_sz enc =
     \<lparr> fp = f, read_position = get_file_size f, read_buffer = None,
       chunk_size = chunk_sz, encoding = enc, new_lines_bytes = map enc new_lines \<rparr>"

text \<open>\<open>add_to_buffer\<close>.\<close>

definition add_to_buffer :: "BufferWorkSpace \<Rightarrow> bytes \<Rightarrow> int \<Rightarrow> BufferWorkSpace" where
  "add_to_buffer s content pos =
     (case read_buffer s of
        None \<Rightarrow> s\<lparr>read_position := pos, read_buffer := Some content\<rparr>
      | Some old \<Rightarrow> s\<lparr>read_position := pos, read_buffer := Some (content @ old)\<rparr>)"

text \<open>\<open>yieldable\<close>.\<close>

definition yieldable :: "BufferWorkSpace \<Rightarrow> error + bool" where
  "yieldable s =
     (case read_buffer s of
        None \<Rightarrow> Inr False
      | Some buf \<Rightarrow>
          (case find_furthest_new_line
                  (remove_trailing_new_line buf (new_lines_bytes s)) (new_lines_bytes s) of
             Inl e \<Rightarrow> Inl e
           | Inr n \<Rightarrow>
               if n \<ge> 0 then Inr True
               else if read_position s = 0 \<and> read_buffer s \<noteq> None then Inr True
               else Inr False))"

text \<open>
  \<open>return_line\<close>.  The \<open>assert\<close> fails with \<open>AssertionError\<close>; an error raised while
  evaluating \<open>self.yieldable()\<close> propagates.  Past the \<open>assert\<close> the buffer is present;
  on an absent one \<open>line.endswith\<close> would raise \<open>AttributeError\<close>.  The result is the
  line and the updated object.
\<close>

definition return_line :: "BufferWorkSpace \<Rightarrow> error + (bytes \<times> BufferWorkSpace)" where
  "return_line s =
     (case yieldable s of
        Inl e \<Rightarrow> Inl e
      | Inr False \<Rightarrow> Inl AssertionError
      | Inr True \<Rightarrow>
          (case read_buffer s of
             None \<Rightarrow> Inl AttributeError
           | Some buf \<Rightarrow>
               (let t = remove_trailing_new_line buf (new_lines_bytes s) in
                case find_furthest_new_line t (new_lines_bytes s) of
                  Inl e \<Rightarrow> Inl e
                | Inr i \<Rightarrow>
                    if i \<ge> 0
                    then (let delimiter = nat (i + 1) in
                          Inr (drop delimiter t, s\<lparr>read_buffer := Some (take delimiter t)\<rparr>))
                    else Inr (t, s\<lparr>read_buffer := None\<rparr>))))"

text \<open>
  \<open>read_until_yieldable\<close>.  The loop has no bound of its own, so the model is a
  partial function: \<open>None\<close> is a loop that never ends.
\<close>

partial_function (option) read_until_yieldable ::
    "BufferWorkSpace \<Rightarrow> (error + BufferWorkSpace) option" where
  "read_until_yieldable s =
     (case yieldable s of
        Inl e \<Rightarrow> Some (Inl e)
      | Inr ready \<Rightarrow>
          if ready then Some (Inr s)
          else (case get_next_chunk (fp s) (read_position s) (chunk_size s) (new_lines_bytes s) of
                  (read_content, pos) \<Rightarrow>
                    read_until_yieldable (add_to_buffer s read_content pos)))"

declare read_until_yieldable.simps [code]

text \<open>\<open>has_returned_every_line\<close>.\<close>

definition has_returned_every_line :: "BufferWorkSpace \<Rightarrow> bool" where
  "has_returned_every_line s =
     (if read_position s = 0 \<and> read_buffer s = None then True else False)"

section \<open>The iteration driver\<close>

text \<open>
  Modelled from the spec: the driver that calls the buffer lives outside
  \<open>buffer_work_space.py\<close>.  Its \<open>next_line\<close> calls \<open>fill_until_ready\<close>
  (\<open>read_until_yieldable\<close>) and then \<open>produce_line\<close> (\<open>return_line\<close>); the full backward
  iteration checks \<open>has_returned_every_line\<close> before every call and stops when it holds.
  \<open>read_lines\<close> is the list of the lines in emission order.
\<close>

definition next_line :: "BufferWorkSpace \<Rightarrow> (error + (bytes \<times> BufferWorkSpace)) option" where
  "next_line s =
     (case read_until_yieldable s of
        None \<Rightarrow> None
      | Some (Inl e) \<Rightarrow> Some (Inl e)
      | Some (Inr s1) \<Rightarrow> Some (return_line s1))"

partial_function (option) read_lines :: "BufferWorkSpace \<Rightarrow> (error + bytes list) option" where
  "read_lines s =
     (if has_returned_every_line s then Some (Inr [])
      else (case next_line s of
              None \<Rightarrow> None
            | Some (Inl e) \<Rightarrow> Some (Inl e)
            | Some (Inr (r, s')) \<Rightarrow>
                Option.bind (read_lines s')
                  (\<lambda>res. Some (case res of Inl e \<Rightarrow> Inl e | Inr rs \<Rightarrow> Inr (r # rs)))))"

declare read_lines.simps [code]

text \<open>
  Modelled from the spec: \<open>n\<close> calls of \<open>next_line\<close> in a row, with the lines they
  return, in emission order, and the object they leave.
\<close>

fun next_lines :: "nat \<Rightarrow> BufferWorkSpace \<Rightarrow> (error + (bytes list \<times> BufferWorkSpace)) option" where
  "next_lines 0 s = Some (Inr ([], s))"
| "next_lines (Suc n) s =
     (case next_line s of
        None \<Rightarrow> None
      | Some (Inl e) \<Rightarrow> Some (Inl e)
      | Some (Inr (r, s')) \<Rightarrow>
          (case next_lines n s' of
             None \<Rightarrow> None
           | Some (Inl e) \<Rightarrow> Some (Inl e)
           | Some (Inr (rs, s'')) \<Rightarrow> Some (Inr (r # rs, s''))))"

section \<open>Lines and terminators of a file, read forwards\<close>

text \<open>
  The reference the backward reader is compared with: the file cut, from its start, into
  lines with the terminator that follows each.  A terminator is \<open>\r\n\<close> (taken as a
  unit), \<open>\n\<close> or \<open>\r\<close>; content after the last terminator is a line with the empty
  terminator.  The first argument collects the bytes of the line being read.
\<close>

fun lines_from :: "bytes \<Rightarrow> bytes \<Rightarrow> (bytes \<times> bytes) list" where
  "lines_from acc [] = (if acc = [] then [] else [(acc, [])])"
| "lines_from acc [c] =
     (if c = CR \<or> c = LF then [(acc, [c])] else [(acc @ [c], [])])"
| "lines_from acc (c # d # ds) =
     (if c = CR \<and> d = LF then (acc, [CR, LF]) # lines_from [] ds
      else if c = CR \<or> c = LF then (acc, [c]) # lines_from [] (d # ds)
      else lines_from (acc @ [c]) (d # ds))"

definition file_lines :: "bytes \<Rightarrow> (bytes \<times> bytes) list" where
  "file_lines f = lines_from [] f"

section \<open>Notions used to state the properties\<close>

text \<open>\<open>sub\<close> occurs in \<open>s\<close> starting at offset \<open>i\<close>.\<close>

definition occurs_at :: "bytes \<Rightarrow> bytes \<Rightarrow> nat \<Rightarrow> bool" where
  "occurs_at s sub i \<longleftrightarrow> i + length sub \<le> length s \<and> take (length sub) (drop i s) = sub"

text \<open>The newline byte sequences of UTF-8, ASCII and Latin-1.\<close>

definition default_new_lines :: "bytes list" where
  "default_new_lines = [[CR, LF], [LF], [CR]]"

text \<open>A byte string without terminator bytes; the three recognised terminators.\<close>

definition eol_free :: "bytes \<Rightarrow> bool" where
  "eol_free l \<longleftrightarrow> CR \<notin> set l \<and> LF \<notin> set l"

definition is_terminator :: "bytes \<Rightarrow> bool" where
  "is_terminator t \<longleftrightarrow> t = [CR, LF] \<or> t = [LF] \<or> t = [CR]"

text \<open>
  The right edge of what is still to be returned: the file offset just past the buffer
  (\<open>read_position\<close> itself when the buffer is absent).
\<close>

definition edge :: "BufferWorkSpace \<Rightarrow> nat" where
  "edge s = nat (read_position s) + (case read_buffer s of None \<Rightarrow> 0 | Some b \<Rightarrow> length b)"

text \<open>
  The invariant of the objects the driver meets on file \<open>f\<close>: the buffer, when present,
  is non-empty and holds the bytes of the file from \<open>read_position\<close> to the edge; when
  absent, nothing has been read yet or everything has been returned.
\<close>

definition consistent :: "bytes \<Rightarrow> BufferWorkSpace \<Rightarrow> bool" where
  "consistent f s \<longleftrightarrow>
     fp s = f \<and> new_lines_bytes s = default_new_lines \<and> 0 < chunk_size s \<and>
     0 \<le> read_position s \<and>
     (case read_buffer s of
        None \<Rightarrow> read_position s = int (length f) \<or> read_position s = 0
      | Some b \<Rightarrow> b \<noteq> [] \<and> nat (read_position s) + length b \<le> length f \<and>
                 b = take (length b) (drop (nat (read_position s)) f))"

text \<open>
  The number of terminators of a file, \<open>\r\n\<close> counting once; whether content follows the
  last terminator; and the number of lines that results.
\<close>

fun count_terminators :: "bytes \<Rightarrow> nat" where
  "count_terminators [] = 0"
| "count_terminators [c] = (if c = CR \<or> c = LF then 1 else 0)"
| "count_terminators (c # d # ds) =
     (if c = CR \<and> d = LF then 1 + count_terminators ds
      else if c = CR \<or> c = LF then 1 + count_terminators (d # ds)
      else count_terminators (d # ds))"

definition unterminated_tail :: "bytes \<Rightarrow> bool" where
  "unterminated_tail f \<longleftrightarrow> f \<noteq> [] \<and> last f \<noteq> CR \<and> last f \<noteq> LF"

definition line_count :: "bytes \<Rightarrow> nat" where
  "line_count f = count_terminators f + (if unterminated_tail f then 1 else 0)"

text \<open>
  The objects reachable from construction on file \<open>f\<close> by \<open>read_until_yieldable\<close> and
  \<open>return_line\<close>, in any order; a call that fails or does not return leads nowhere.
\<close>

inductive reachable :: "bytes \<Rightarrow> int \<Rightarrow> (string \<Rightarrow> bytes) \<Rightarrow> BufferWorkSpace \<Rightarrow> bool"
  for f :: bytes and cs :: int and enc :: "string \<Rightarrow> bytes" where
  start: "reachable f cs enc (init f cs enc)"
| fill: "reachable f cs enc s \<Longrightarrow> read_until_yieldable s = Some (Inr s') \<Longrightarrow> reachable f cs enc s'"
| produce: "reachable f cs enc s \<Longrightarrow> return_line s = Inr (r, s') \<Longrightarrow> reachable f cs enc s'"

text \<open>
  UTF-32 (big endian) encodes an ASCII character as three zero bytes and the character's
  byte; it is used here only as an encoding whose newline sequences repeat a byte.
\<close>

definition utf_32_be :: "string \<Rightarrow> bytes" where
  "utf_32_be s = concat (map (\<lambda>c. [CHR 0x00, CHR 0x00, CHR 0x00, c]) s)"

text \<open>
  Two readings of ``the single byte \<open>b\<close> occurs at index \<open>\<ge> 1\<close> inside some recognised
  terminator'': at some index \<open>\<ge> 1\<close> (\<open>continuation_byte\<close>), and first at an index
  \<open>\<ge> 1\<close> (\<open>first_found_late\<close>).
\<close>

definition continuation_byte :: "bytes \<Rightarrow> bytes list \<Rightarrow> bool" where
  "continuation_byte b nls \<longleftrightarrow>
     length b = 1 \<and> (\<exists>n\<in>set nls. \<exists>i\<in>{1..length n}. occurs_at n b i)"

definition first_found_late :: "bytes \<Rightarrow> bytes list \<Rightarrow> bool" where
  "first_found_late b nls \<longleftrightarrow>
     (\<exists>n\<in>set nls. \<exists>i\<in>{1..length n}. occurs_at n b i \<and> (\<forall>j<i. \<not> occurs_at n b j))"

text \<open>
  The next-read computation as a relation between the inputs and the pair (seek offset,
  read length), for a given notion \<open>cont\<close> of continuation byte: the offset lies between
  \<open>0\<close> and \<open>max (prev - cs) 0\<close>, every byte passed on the way back is a continuation
  byte, the walk stops at offset \<open>0\<close> or at a byte that is none, and the read length is the
  chunk size plus the steps walked, clamped to \<open>prev - offset\<close>.
\<close>

definition next_read_spec ::
    "(bytes \<Rightarrow> bytes list \<Rightarrow> bool) \<Rightarrow> bytes \<Rightarrow> int \<Rightarrow> int \<Rightarrow> bytes list \<Rightarrow> int \<times> int \<Rightarrow> bool" where
  "next_read_spec cont f prev cs nls r \<longleftrightarrow>
     (case r of (sp, rs) \<Rightarrow>
        0 \<le> sp \<and> sp \<le> max (prev - cs) 0 \<and>
        (\<forall>q\<in>{sp<..max (prev - cs) 0}. cont (seek_read f q 1) nls) \<and>
        (sp = 0 \<or> \<not> cont (seek_read f sp 1) nls) \<and>
        rs = min (cs + (max (prev - cs) 0 - sp)) (prev - sp))"

section \<open>Notions for other encodings\<close>





text \<open>
  A list of newline sequences is \<open>split_safe\<close> when it is non-empty, holds no empty
  sequence, and no sequence occurs in what the trailing strip leaves of a proper, non-empty
  end piece of a sequence: a buffer that starts inside a terminator then cannot show a
  line.  \<open>split_safe_list\<close> is the same test written over lists.
\<close>

definition split_safe :: "bytes list \<Rightarrow> bool" where
  "split_safe nls \<longleftrightarrow>
     nls \<noteq> [] \<and> [] \<notin> set nls \<and>
     (\<forall>n\<in>set nls. \<forall>k\<in>{1..<length n}. \<forall>m\<in>set nls.
        occurrences (remove_trailing_new_line (drop k n) nls) m = [])"

definition split_safe_list :: "bytes list \<Rightarrow> bool" where
  "split_safe_list nls \<longleftrightarrow>
     nls \<noteq> [] \<and> list_all (\<lambda>n. n \<noteq> []) nls \<and>
     list_all (\<lambda>n. list_all (\<lambda>k. list_all (\<lambda>m.
        occurrences (remove_first_match (drop k n) (sorted_len_reverse nls)) m = []) nls) [1..<length n]) nls"



text \<open>
  The invariant \<open>consistent\<close> with \<open>split_safe\<close> newline sequences in place of the three
  single-byte ones.
\<close>

definition buffered :: "bytes \<Rightarrow> BufferWorkSpace \<Rightarrow> bool" where
  "buffered f s \<longleftrightarrow>
     fp s = f \<and> split_safe (new_lines_bytes s) \<and> 0 < chunk_size s \<and>
     0 \<le> read_position s \<and>
     (case read_buffer s of
        None \<Rightarrow> read_position s = int (length f) \<or> read_position s = 0
      | Some b \<Rightarrow> b \<noteq> [] \<and> nat (read_position s) + length b \<le> length f \<and>
                 b = take (length b) (drop (nat (read_position s)) f))"

section \<open>Lemmas on the Python primitives\<close>

lemma endswith_iff: "endswith line n \<longleftrightarrow> (\<exists>t. line = t @ n)"
proof
  assume "endswith line n"
  then have "line = take (length line - length n) line @ n"
    unfolding endswith_def by (metis append_take_drop_id)
  then show "\<exists>t. line = t @ n" ..
next
  assume "\<exists>t. line = t @ n"
  then show "endswith line n" unfolding endswith_def by auto
qed

lemma set_occurrences: "set (occurrences s sub) = {i. occurs_at s sub i}"
  unfolding occurrences_def occurs_at_def by auto

lemma sorted_le_last: "sorted (xs :: nat list) \<Longrightarrow> x \<in> set xs \<Longrightarrow> x \<le> last xs"
  by (induction xs) auto

lemma sorted_occurrences: "sorted (occurrences s sub)"
  unfolding occurrences_def by (simp add: sorted_wrt_filter)

lemma bytes_rfind_none: "bytes_rfind s sub < 0 \<Longrightarrow> \<not> occurs_at s sub i"
  using set_occurrences [of s sub] unfolding bytes_rfind_def
  by (auto split: if_splits)

lemma bytes_rfind_some:
  assumes "0 \<le> bytes_rfind s sub"
  shows "occurs_at s sub (nat (bytes_rfind s sub))"
    and "occurs_at s sub j \<Longrightarrow> j \<le> nat (bytes_rfind s sub)"
proof -
  let ?os = "occurrences s sub"
  from assms have ne: "?os \<noteq> []" and r: "bytes_rfind s sub = int (last ?os)"
    unfolding bytes_rfind_def by (auto split: if_splits)
  from ne have "last ?os \<in> set ?os" by simp
  then show "occurs_at s sub (nat (bytes_rfind s sub))"
    using r set_occurrences [of s sub] by simp
  assume "occurs_at s sub j"
  then have "j \<in> set ?os" using set_occurrences [of s sub] by simp
  then have "j \<le> last ?os" using sorted_occurrences sorted_le_last by blast
  then show "j \<le> nat (bytes_rfind s sub)" using r by simp
qed

lemma bytes_rfind_ge: "- 1 \<le> bytes_rfind s sub"
  unfolding bytes_rfind_def by simp

lemma occurs_at_single: "occurs_at s [c] i \<longleftrightarrow> i < length s \<and> s ! i = c"
  unfolding occurs_at_def
  by (auto simp: take_Suc_conv_app_nth hd_drop_conv_nth take_Suc)

lemma occurs_at_CRLF: "occurs_at s [CR, LF] i \<Longrightarrow> i < length s \<and> s ! i = CR"
  unfolding occurs_at_def
  by (auto simp: take_Suc hd_drop_conv_nth split: if_splits)

section \<open>Stripping and searching with the newline sequences \<open>\r\n\<close>, \<open>\n\<close>, \<open>\r\<close>\<close>

lemma sorted_len_reverse_default [simp]:
  "sorted_len_reverse default_new_lines = default_new_lines"
  unfolding sorted_len_reverse_def default_new_lines_def by simp

lemma map_utf_8_new_lines [simp]: "map utf_8 new_lines = default_new_lines"
  unfolding new_lines_def default_new_lines_def utf_8_def by simp

lemma remove_trailing_default:
  "remove_trailing_new_line b default_new_lines =
     (if endswith b [CR, LF] then take (length b - 2) b
      else if endswith b [LF] then take (length b - 1) b
      else if endswith b [CR] then take (length b - 1) b
      else b)"
  unfolding remove_trailing_new_line_def sorted_len_reverse_default
  by (simp add: default_new_lines_def numeral_2_eq_2)

lemma endswith_single: "endswith b [c] \<longleftrightarrow> b \<noteq> [] \<and> last b = c"
  unfolding endswith_iff by (metis append_butlast_last_id last_snoc snoc_eq_iff_butlast)

lemma strip_cases:
  obtains (crlf) t where "b = t @ [CR, LF]" "remove_trailing_new_line b default_new_lines = t"
  | (lf) t where "b = t @ [LF]" "t = [] \<or> last t \<noteq> CR" "remove_trailing_new_line b default_new_lines = t"
  | (cr) t where "b = t @ [CR]" "remove_trailing_new_line b default_new_lines = t"
  | (none) "b = [] \<or> (last b \<noteq> CR \<and> last b \<noteq> LF)" "remove_trailing_new_line b default_new_lines = b"
proof (cases "endswith b [CR, LF]")
  case True
  then obtain t where "b = t @ [CR, LF]" unfolding endswith_iff by blast
  moreover from this True have "remove_trailing_new_line b default_new_lines = t"
    by (simp add: remove_trailing_default)
  ultimately show ?thesis using crlf by blast
next
  case F1: False
  show ?thesis
  proof (cases "endswith b [LF]")
    case True
    then obtain t where b: "b = t @ [LF]" unfolding endswith_iff by blast
    from F1 b have "t = [] \<or> last t \<noteq> CR"
      unfolding endswith_iff by (metis append_butlast_last_id append.assoc append_Cons append_Nil)
    moreover from b True F1 have "remove_trailing_new_line b default_new_lines = t"
      by (simp add: remove_trailing_default)
    ultimately show ?thesis using lf b by blast
  next
    case F2: False
    show ?thesis
    proof (cases "endswith b [CR]")
      case True
      then obtain t where b: "b = t @ [CR]" unfolding endswith_iff by blast
      from b True F1 F2 have "remove_trailing_new_line b default_new_lines = t"
        by (simp add: remove_trailing_default)
      then show ?thesis using cr b by blast
    next
      case False
      with F1 F2 have "remove_trailing_new_line b default_new_lines = b"
        by (simp add: remove_trailing_default)
      moreover from False F2 have "b = [] \<or> (last b \<noteq> CR \<and> last b \<noteq> LF)"
        unfolding endswith_single by auto
      ultimately show ?thesis using none by blast
    qed
  qed
qed

lemma fold_max_Max: "fold max ps (p::int) = Max (set (p # ps))"
  using Max.set_eq_fold [of p ps] by simp

lemma find_furthest_default:
  "find_furthest_new_line t default_new_lines =
     Inr (max (bytes_rfind t [CR, LF]) (max (bytes_rfind t [LF]) (bytes_rfind t [CR])))"
  unfolding find_furthest_new_line_def default_new_lines_def by (simp add: max.commute max.left_commute)

lemma find_furthest_default_neg:
  assumes "find_furthest_new_line t default_new_lines = Inr i" "i < 0"
  shows "eol_free t"
proof -
  from assms have "bytes_rfind t [LF] < 0" "bytes_rfind t [CR] < 0"
    unfolding find_furthest_default by auto
  then have "\<And>j. \<not> occurs_at t [LF] j" "\<And>j. \<not> occurs_at t [CR] j"
    using bytes_rfind_none by blast+
  then show ?thesis unfolding eol_free_def occurs_at_single by (metis in_set_conv_nth)
qed

lemma find_furthest_default_pos:
  assumes "find_furthest_new_line t default_new_lines = Inr i" "0 \<le> i"
  shows "nat i < length t" "t ! nat i = CR \<or> t ! nat i = LF" "eol_free (drop (nat i + 1) t)"
proof -
  let ?a = "bytes_rfind t [CR, LF]" and ?b = "bytes_rfind t [LF]" and ?c = "bytes_rfind t [CR]"
  from assms have i: "i = max ?a (max ?b ?c)" unfolding find_furthest_default by simp
  then have "i = ?a \<or> i = ?b \<or> i = ?c" by linarith
  then have "nat i < length t \<and> (t ! nat i = CR \<or> t ! nat i = LF)"
    using bytes_rfind_some(1) [of t] assms(2) occurs_at_single occurs_at_CRLF by metis
  then show "nat i < length t" "t ! nat i = CR \<or> t ! nat i = LF" by auto
  have "\<not> (t ! j = c)" if "nat i < j" "j < length t" "c = CR \<or> c = LF" for j c
  proof
    assume "t ! j = c"
    then have o: "occurs_at t [c] j" using that occurs_at_single by simp
    have "0 \<le> bytes_rfind t [c]" using bytes_rfind_none [of t "[c]" j] o by force
    then have "j \<le> nat (bytes_rfind t [c])" using bytes_rfind_some(2) o by blast
    moreover have "bytes_rfind t [c] \<le> i" using i that(3) by auto
    ultimately show False using that(1) assms(2) by linarith
  qed
  then show "eol_free (drop (nat i + 1) t)"
    unfolding eol_free_def by (auto simp: in_set_conv_nth)
qed

section \<open>The forward lines\<close>

lemma lines_from_eol_free:
  "eol_free l \<Longrightarrow> lines_from acc l = (if acc @ l = [] then [] else [(acc @ l, [])])"
  by (induction acc l rule: lines_from.induct) (auto simp: eol_free_def)

lemma lines_from_one_line:
  "eol_free l \<Longrightarrow> is_terminator t \<Longrightarrow> lines_from acc (l @ t) = [(acc @ l, t)]"
proof (induction l arbitrary: acc)
  case Nil
  then show ?case by (auto simp: is_terminator_def)
next
  case (Cons c l)
  from Cons.prems(2) obtain d ds where lt: "l @ t = d # ds"
    by (cases "l @ t") (auto simp: is_terminator_def)
  from Cons.prems(1) have c: "c \<noteq> CR" "c \<noteq> LF" and l: "eol_free l"
    by (auto simp: eol_free_def)
  have "lines_from acc ((c # l) @ t) = lines_from (acc @ [c]) (l @ t)"
    using c lt by simp
  also have "\<dots> = [((acc @ [c]) @ l, t)]" using Cons.IH [OF l Cons.prems(2)] .
  finally show ?case by simp
qed

lemma lines_from_append:
  assumes "w \<noteq> []"
    and "last w = LF \<or> (last w = CR \<and> (y = [] \<or> hd y \<noteq> LF))"
  shows "lines_from acc (w @ y) = lines_from acc w @ lines_from [] y"
  using assms
proof (induction acc w rule: lines_from.induct)
  case (1 acc)
  then show ?case by simp
next
  case (2 acc c)
  then show ?case by (cases y) auto
next
  case (3 acc c d ds)
  show ?case
  proof (cases "ds = []")
    case True
    with "3.prems" show ?thesis by (cases y) auto
  next
    case False
    with "3.prems" have p: "last ds = LF \<or> (last ds = CR \<and> (y = [] \<or> hd y \<noteq> LF))" by simp
    have p': "d # ds \<noteq> []" "last (d # ds) = LF \<or> (last (d # ds) = CR \<and> (y = [] \<or> hd y \<noteq> LF))"
      using False p by auto
    show ?thesis
      using "3.IH"(1) [OF _ False p] "3.IH"(2) [OF _ _ p'] "3.IH"(3) [OF _ _ p'] 
      by auto
  qed
qed

lemma file_lines_snoc_line:
  assumes w: "w = [] \<or> last w = CR \<or> last w = LF"
    and l: "eol_free l"
    and t: "is_terminator t \<or> (t = [] \<and> l \<noteq> [])"
    and s: "\<not> (w \<noteq> [] \<and> last w = CR \<and> l = [] \<and> t = [LF])"
  shows "file_lines (w @ l @ t) = file_lines w @ [(l, t)]"
proof -
  have one: "lines_from [] (l @ t) = [(l, t)]"
    using l t lines_from_one_line [of l t "[]"] lines_from_eol_free [of l "[]"] by auto
  show ?thesis
  proof (cases "w = []")
    case True
    then show ?thesis using one by (simp add: file_lines_def)
  next
    case False
    have "last w = LF \<or> (last w = CR \<and> (l @ t = [] \<or> hd (l @ t) \<noteq> LF))"
    proof (cases "last w = LF")
      case True then show ?thesis by simp
    next
      case F: False
      with w False have cr: "last w = CR" by simp
      have "hd (l @ t) \<noteq> LF"
      proof (cases l)
        case Nil
        with s False cr t show ?thesis by (auto simp: is_terminator_def)
      next
        case (Cons a list)
        with l show ?thesis by (auto simp: eol_free_def)
      qed
      with cr show ?thesis by simp
    qed
    from lines_from_append [OF False this] one show ?thesis
      by (simp add: file_lines_def)
  qed
qed

lemma concat_lines_from: "concat (map (\<lambda>(l, t). l @ t) (lines_from acc f)) = acc @ f"
  by (induction acc f rule: lines_from.induct) auto

lemma file_lines_Nil_iff: "file_lines f = [] \<longleftrightarrow> f = []"
proof -
  have "lines_from acc g = [] \<longleftrightarrow> acc @ g = []" for acc g
    by (induction acc g rule: lines_from.induct) auto
  then show ?thesis by (simp add: file_lines_def)
qed

section \<open>The next read\<close>

lemma walk_back_result:
  "walk_back f nls sp rs = (sp', rs') \<Longrightarrow>
     sp' \<le> sp \<and> (0 \<le> sp \<longrightarrow> 0 \<le> sp') \<and> rs' = rs + (sp - sp')"
proof (induction f nls sp rs rule: walk_back.induct)
  case (1 f nls sp rs)
  show ?case
  proof (cases "sp > 0 \<and> is_partially_read_new_line (seek_read f sp 1) nls")
    case True
    with "1.prems" have "walk_back f nls (sp - 1) (rs + 1) = (sp', rs')"
      by (simp add: walk_back.simps [of f nls sp rs])
    from "1.IH" [OF _ _ this] True show ?thesis by auto
  next
    case False
    with "1.prems" have "(sp', rs') = (sp, rs)"
      by (auto simp: walk_back.simps [of f nls sp rs] split: if_splits)
    then show ?thesis by simp
  qed
qed

lemma get_what_to_read_next_bounds:
  assumes "get_what_to_read_next f p cs nls = (sp, rs)" "0 \<le> p" "0 < cs"
  shows "0 \<le> sp" "sp \<le> max (p - cs) 0" "rs = p - sp"
proof -
  obtain sp' rs' where w: "walk_back f nls (max (p - cs) 0) cs = (sp', rs')"
    by (cases "walk_back f nls (max (p - cs) 0) cs")
  with assms(1) have e: "sp = sp'" "rs = min (p - sp') rs'"
    unfolding get_what_to_read_next_def by auto
  from walk_back_result [OF w] have
    b: "sp' \<le> max (p - cs) 0" "0 \<le> sp'" "rs' = cs + (max (p - cs) 0 - sp')"
    by auto
  show "0 \<le> sp" "sp \<le> max (p - cs) 0" "rs = p - sp"
    using e b by auto
qed

lemma get_next_chunk_content:
  assumes "get_next_chunk f p cs nls = (content, sp)" "0 \<le> p" "0 < cs" "p \<le> int (length f)"
  shows "0 \<le> sp" "sp \<le> max (p - cs) 0"
    and "content = take (nat p - nat sp) (drop (nat sp) f)"
    and "length content = nat p - nat sp"
proof -
  obtain rs where g: "get_what_to_read_next f p cs nls = (sp, rs)"
    and c: "content = seek_read f sp rs"
    using assms(1) unfolding get_next_chunk_def
    by (cases "get_what_to_read_next f p cs nls") auto
  note b = get_what_to_read_next_bounds [OF g assms(2,3)]
  show "0 \<le> sp" "sp \<le> max (p - cs) 0" using b by auto
  have "nat rs = nat p - nat sp" using b assms(2) by auto
  moreover have "0 \<le> rs" using b assms(2,3) by auto
  ultimately show c': "content = take (nat p - nat sp) (drop (nat sp) f)"
    using c unfolding seek_read_def by auto
  show "length content = nat p - nat sp"
    unfolding c' using assms(4) b assms(2) by auto
qed

section \<open>Filling and producing keep the invariant\<close>

lemma yieldable_default:
  assumes "new_lines_bytes s = default_new_lines"
  shows "yieldable s =
     Inr (case read_buffer s of
            None \<Rightarrow> False
          | Some buf \<Rightarrow>
              \<not> eol_free (remove_trailing_new_line buf default_new_lines) \<or> read_position s = 0)"
proof (cases "read_buffer s")
  case None
  then show ?thesis by (simp add: yieldable_def)
next
  case (Some buf)
  let ?t = "remove_trailing_new_line buf default_new_lines"
  obtain i where i: "find_furthest_new_line ?t default_new_lines = Inr i"
    unfolding find_furthest_default by blast
  have "0 \<le> i \<longleftrightarrow> \<not> eol_free ?t"
  proof
    assume "0 \<le> i"
    from find_furthest_default_pos(1,2) [OF i this] show "\<not> eol_free ?t"
      unfolding eol_free_def by (metis nth_mem)
  next
    assume "\<not> eol_free ?t"
    then show "0 \<le> i" using find_furthest_default_neg [OF i] by force
  qed
  then show ?thesis using Some i assms by (auto simp: yieldable_def)
qed

lemma consistent_position_le: "consistent f s \<Longrightarrow> read_position s \<le> int (length f)"
  unfolding consistent_def by (auto split: option.splits)

lemma take_drop_join:
  assumes "c \<le> a"
  shows "take (a - c) (drop c f) @ take n (drop a f) = take (a - c + n) (drop c f)"
proof -
  have "drop (a - c) (drop c f) = drop a f" using assms by simp
  then show ?thesis by (simp add: take_add)
qed

lemma add_to_buffer_consistent:
  assumes c: "consistent f s"
    and p: "0 < read_position s"
    and g: "get_next_chunk (fp s) (read_position s) (chunk_size s) (new_lines_bytes s) = (content, sp)"
  shows "consistent f (add_to_buffer s content sp)"
    and "edge (add_to_buffer s content sp) = edge s"
    and "0 \<le> sp" and "sp < read_position s"
    and "chunk_size (add_to_buffer s content sp) = chunk_size s"
    and "encoding (add_to_buffer s content sp) = encoding s"
proof -
  let ?p = "read_position s"
  from c have f: "fp s = f" and cs: "0 < chunk_size s" and p0: "0 \<le> ?p"
    unfolding consistent_def by auto
  note le = consistent_position_le [OF c]
  note n = get_next_chunk_content [OF g [unfolded f] p0 cs le]
  show sp: "0 \<le> sp" "sp < ?p" using n(1,2) p cs by auto
  then have lt: "nat sp \<le> nat ?p" by simp
  have len: "length content = nat ?p - nat sp" by (rule n(4))
  have ne: "content \<noteq> []" using len sp by auto
  show "chunk_size (add_to_buffer s content sp) = chunk_size s"
    "encoding (add_to_buffer s content sp) = encoding s"
    unfolding add_to_buffer_def by (auto split: option.splits)
  show "edge (add_to_buffer s content sp) = edge s"
    unfolding add_to_buffer_def edge_def using len sp by (auto split: option.splits)
  show "consistent f (add_to_buffer s content sp)"
  proof (cases "read_buffer s")
    case None
    with c p have "?p = int (length f)" unfolding consistent_def by auto
    then show ?thesis
      using None c sp ne n(3) len unfolding consistent_def add_to_buffer_def by auto
  next
    case (Some b)
    with c have b: "b \<noteq> []" "nat ?p + length b \<le> length f" "b = take (length b) (drop (nat ?p) f)"
      unfolding consistent_def by auto
    define nb where "nb = content @ b"
    have "nb = take (nat ?p - nat sp + length b) (drop (nat sp) f)"
      unfolding nb_def using take_drop_join [OF lt, of f "length b"] n(3) b(3) by simp
    moreover have l: "length nb = nat ?p - nat sp + length b" unfolding nb_def using len by simp
    ultimately have 1: "nb = take (length nb) (drop (nat sp) f)" by simp
    have 2: "nat sp + length nb \<le> length f" using l b(2) lt by simp
    have 3: "nb \<noteq> []" unfolding nb_def using ne by simp
    have "add_to_buffer s content sp = s\<lparr>read_position := sp, read_buffer := Some nb\<rparr>"
      unfolding add_to_buffer_def nb_def using Some by simp
    then show ?thesis
      using c sp 1 2 3 unfolding consistent_def by simp
  qed
qed

lemma fill_ok:
  assumes "consistent f s" "0 < edge s"
  shows "\<exists>s'. read_until_yieldable s = Some (Inr s') \<and> consistent f s' \<and> edge s' = edge s \<and>
           yieldable s' = Inr True \<and> read_position s' \<le> read_position s \<and>
           chunk_size s' = chunk_size s \<and> encoding s' = encoding s"
  using assms
proof (induction "nat (read_position s)" arbitrary: s rule: less_induct)
  case less
  from less.prems(1) have d: "new_lines_bytes s = default_new_lines" and p0: "0 \<le> read_position s"
    unfolding consistent_def by auto
  show ?case
  proof (cases "yieldable s = Inr True")
    case True
    then have "read_until_yieldable s = Some (Inr s)"
      by (simp add: read_until_yieldable.simps [of s])
    with True less.prems show ?thesis by simp
  next
    case False
    then have y: "yieldable s = Inr False" using yieldable_default [OF d] by auto
    have p: "0 < read_position s"
    proof (rule ccontr)
      assume "\<not> 0 < read_position s"
      with p0 have z: "read_position s = 0" by simp
      with less.prems(2) obtain b where "read_buffer s = Some b"
        unfolding edge_def by (cases "read_buffer s") auto
      with z y show False using yieldable_default [OF d] by simp
    qed
    obtain content sp where
      g: "get_next_chunk (fp s) (read_position s) (chunk_size s) (new_lines_bytes s) = (content, sp)"
      by (cases "get_next_chunk (fp s) (read_position s) (chunk_size s) (new_lines_bytes s)")
    let ?s1 = "add_to_buffer s content sp"
    note a = add_to_buffer_consistent [OF less.prems(1) p g]
    have r: "read_until_yieldable s = read_until_yieldable ?s1"
      using y g by (simp add: read_until_yieldable.simps [of s])
    have pos1: "read_position ?s1 = sp"
      unfolding add_to_buffer_def by (auto split: option.splits)
    have "nat (read_position ?s1) < nat (read_position s)" using pos1 a(3,4) by simp
    from less.hyps [OF this a(1)] a(2) less.prems(2)
    obtain s' where "read_until_yieldable ?s1 = Some (Inr s')" "consistent f s'"
      "edge s' = edge ?s1" "yieldable s' = Inr True" "read_position s' \<le> read_position ?s1"
      "chunk_size s' = chunk_size ?s1" "encoding s' = encoding ?s1"
      by auto
    then show ?thesis using r a pos1 by auto
  qed
qed

lemma strip_decomp:
  obtains eol where "b = remove_trailing_new_line b default_new_lines @ eol"
    and "is_terminator eol \<or> (eol = [] \<and> (b = [] \<or> (last b \<noteq> CR \<and> last b \<noteq> LF)))"
    and "eol = [LF] \<Longrightarrow> remove_trailing_new_line b default_new_lines \<noteq> [] \<Longrightarrow>
           last (remove_trailing_new_line b default_new_lines) \<noteq> CR"
proof (cases b rule: strip_cases)
  case (crlf t)
  then show ?thesis using that [of "[CR, LF]"] by (simp add: is_terminator_def)
next
  case (lf t)
  then show ?thesis using that [of "[LF]"] by (auto simp: is_terminator_def)
next
  case (cr t)
  then show ?thesis using that [of "[CR]"] by (simp add: is_terminator_def)
next
  case none
  then show ?thesis using that [of "[]"] by simp
qed

lemma return_line_cases:
  assumes d: "new_lines_bytes s = default_new_lines"
    and y: "yieldable s = Inr True"
  obtains (split) b u l eol where
      "read_buffer s = Some b" "b = u @ l @ eol" "u \<noteq> []" "last u = CR \<or> last u = LF"
      "eol_free l" "is_terminator eol \<or> (eol = [] \<and> l \<noteq> [])"
      "\<not> (last u = CR \<and> l = [] \<and> eol = [LF])"
      "remove_trailing_new_line b default_new_lines = u @ l"
      "return_line s = Inr (l, s\<lparr>read_buffer := Some u\<rparr>)"
  | (final) b t eol where
      "read_buffer s = Some b" "b = t @ eol" "eol_free t" "is_terminator eol \<or> eol = []"
      "read_position s = 0"
      "remove_trailing_new_line b default_new_lines = t"
      "return_line s = Inr (t, s\<lparr>read_buffer := None\<rparr>)"
proof -
  from y obtain b where b: "read_buffer s = Some b"
    unfolding yieldable_def by (cases "read_buffer s") auto
  let ?t = "remove_trailing_new_line b default_new_lines"
  obtain eol where tm: "b = ?t @ eol"
    "is_terminator eol \<or> (eol = [] \<and> (b = [] \<or> (last b \<noteq> CR \<and> last b \<noteq> LF)))"
    "eol = [LF] \<Longrightarrow> ?t \<noteq> [] \<Longrightarrow> last ?t \<noteq> CR"
    by (rule strip_decomp [of b]) blast
  obtain i where i: "find_furthest_new_line ?t default_new_lines = Inr i"
    unfolding find_furthest_default by blast
  show ?thesis
  proof (cases "0 \<le> i")
    case True
    note fp = find_furthest_default_pos [OF i True]
    let ?u = "take (nat (i + 1)) ?t" and ?l = "drop (nat (i + 1)) ?t"
    have ni: "nat (i + 1) = Suc (nat i)" using True by simp
    have u: "?u \<noteq> []" using fp(1) ni by auto
    have lu: "last ?u = ?t ! nat i"
      using fp(1) unfolding ni by (simp add: take_Suc_conv_app_nth)
    have ul: "?u @ ?l = ?t" by simp
    have 1: "b = ?u @ ?l @ eol" using tm(1) ul by (metis append.assoc)
    have 2: "last ?u = CR \<or> last ?u = LF" using lu fp(2) by simp
    have 3: "eol_free ?l" using fp(3) ni by simp
    have 4: "is_terminator eol \<or> (eol = [] \<and> ?l \<noteq> [])"
    proof (rule ccontr)
      assume n: "\<not> ?thesis"
      with tm(2) have e: "eol = []" "b = [] \<or> (last b \<noteq> CR \<and> last b \<noteq> LF)" "?l = []" by auto
      then have "b = ?u" using 1 by simp
      with e(2) u 2 show False by simp
    qed
    have 5: "\<not> (last ?u = CR \<and> ?l = [] \<and> eol = [LF])"
    proof
      assume a: "last ?u = CR \<and> ?l = [] \<and> eol = [LF]"
      then have "?t = ?u" by (metis append_Nil2 append_take_drop_id)
      with a u tm(3) show False by simp
    qed
    have 6: "return_line s = Inr (?l, s\<lparr>read_buffer := Some ?u\<rparr>)"
      using y b d i True by (simp add: return_line_def Let_def)
    show ?thesis using split [OF b 1 u 2 3 4 5 _ 6] by simp
  next
    case False
    then have e: "eol_free ?t" using find_furthest_default_neg [OF i] by simp
    with y b have p: "read_position s = 0" using yieldable_default [OF d] by simp
    have "return_line s = Inr (?t, s\<lparr>read_buffer := None\<rparr>)"
      using y b d i False by (simp add: return_line_def Let_def)
    moreover have "is_terminator eol \<or> eol = []" using tm(2) by auto
    ultimately show ?thesis using final [OF b tm(1) e _ p] by simp
  qed
qed

lemma consistent_take_edge:
  assumes "consistent f s" "read_buffer s = Some b"
  shows "take (edge s) f = take (nat (read_position s)) f @ b"
proof -
  from assms have "b = take (length b) (drop (nat (read_position s)) f)"
    unfolding consistent_def by simp
  then show ?thesis using assms(2) unfolding edge_def by (simp add: take_add)
qed

lemma produce_ok:
  assumes c: "consistent f s" and y: "yieldable s = Inr True"
  shows "\<exists>r s' eol. return_line s = Inr (r, s') \<and> consistent f s' \<and> edge s' < edge s \<and>
           file_lines (take (edge s) f) = file_lines (take (edge s') f) @ [(r, eol)] \<and>
           read_position s' = read_position s \<and>
           chunk_size s' = chunk_size s \<and> encoding s' = encoding s"
proof -
  from c have d: "new_lines_bytes s = default_new_lines" unfolding consistent_def by simp
  let ?p = "nat (read_position s)"
  from d y show ?thesis
  proof (cases rule: return_line_cases)
    case (split b u l eol)
    let ?s' = "s\<lparr>read_buffer := Some u\<rparr>"
    from c split(1) have b: "?p + length b \<le> length f" "b = take (length b) (drop ?p f)"
      unfolding consistent_def by auto
    have "take (length u) b = u" using split(2) by simp
    then have "u = take (length u) (drop ?p f)"
      using b(2) by (metis append_eq_conv_conj split(2) take_take min.absorb1 length_append le_add1)
    moreover have lu: "length u \<le> length b" using split(2) by simp
    ultimately have c': "consistent f ?s'"
      using c split(3) b(1) unfolding consistent_def by auto
    have lt: "edge ?s' < edge s"
      using split(1,2,6) unfolding edge_def by (auto simp: is_terminator_def)
    let ?w = "take ?p f @ u"
    have e: "take (edge s) f = ?w @ l @ eol"
      using consistent_take_edge [OF c split(1)] split(2) by simp
    have e': "take (edge ?s') f = ?w"
      using consistent_take_edge [OF c', of u] by simp
    have "file_lines (?w @ l @ eol) = file_lines ?w @ [(l, eol)]"
      using split(3,4,5,6,7) by (intro file_lines_snoc_line) auto
    then show ?thesis using c' lt e e' split(9) by auto
  next
    case (final b t eol)
    let ?s' = "s\<lparr>read_buffer := None\<rparr>"
    from c final(1) have b: "b \<noteq> []" unfolding consistent_def by auto
    have c': "consistent f ?s'" using c final(5) unfolding consistent_def by auto
    have lt: "edge ?s' < edge s" using final(1,5) b unfolding edge_def by simp
    have e: "take (edge s) f = [] @ t @ eol"
      using consistent_take_edge [OF c final(1)] final(2,5) by simp
    have e': "take (edge ?s') f = []" using final(5) unfolding edge_def by simp
    have "file_lines ([] @ t @ eol) = file_lines [] @ [(t, eol)]"
      using final(3,4) b final(2) by (intro file_lines_snoc_line) auto
    then show ?thesis using c' lt e e' final(7) by auto
  qed
qed

section \<open>The driver returns the forward lines, last first\<close>

lemma length_lines_from:
  "length (lines_from acc f) =
     count_terminators f + (if unterminated_tail f \<or> (f = [] \<and> acc \<noteq> []) then 1 else 0)"
  by (induction acc f rule: lines_from.induct) (auto simp: unterminated_tail_def)

lemma length_file_lines: "length (file_lines f) = line_count f"
  by (simp add: file_lines_def length_lines_from line_count_def)

lemma consistent_edge_le: "consistent f s \<Longrightarrow> edge s \<le> length f"
  unfolding consistent_def edge_def by (auto split: option.splits)

lemma has_returned_iff_edge:
  "consistent f s \<Longrightarrow> has_returned_every_line s \<longleftrightarrow> edge s = 0"
  unfolding consistent_def edge_def has_returned_every_line_def
  by (auto split: option.splits)

lemma init_consistent:
  assumes "0 < cs" "map enc new_lines = default_new_lines"
  shows "consistent f (init f cs enc)" "edge (init f cs enc) = length f"
  using assms unfolding consistent_def init_def edge_def get_file_size_def by auto

lemma next_line_ok:
  assumes "consistent f s" "0 < edge s"
  shows "\<exists>r s' eol. next_line s = Some (Inr (r, s')) \<and> consistent f s' \<and> edge s' < edge s \<and>
           file_lines (take (edge s) f) = file_lines (take (edge s') f) @ [(r, eol)] \<and>
           read_position s' \<le> read_position s \<and>
           chunk_size s' = chunk_size s \<and> encoding s' = encoding s"
proof -
  from fill_ok [OF assms] obtain s1 where 1: "read_until_yieldable s = Some (Inr s1)"
    "consistent f s1" "edge s1 = edge s" "yieldable s1 = Inr True"
    "read_position s1 \<le> read_position s" "chunk_size s1 = chunk_size s" "encoding s1 = encoding s"
    by blast
  from produce_ok [OF 1(2) 1(4)] obtain r s' eol where 2: "return_line s1 = Inr (r, s')"
    "consistent f s'" "edge s' < edge s1"
    "file_lines (take (edge s1) f) = file_lines (take (edge s') f) @ [(r, eol)]"
    "read_position s' = read_position s1" "chunk_size s' = chunk_size s1" "encoding s' = encoding s1"
    by blast
  have "next_line s = Some (Inr (r, s'))" using 1(1) 2(1) by (simp add: next_line_def)
  then show ?thesis using 1 2 by auto
qed

lemma read_lines_ok:
  assumes "consistent f s"
  shows "read_lines s = Some (Inr (rev (map fst (file_lines (take (edge s) f)))))"
  using assms
proof (induction "edge s" arbitrary: s rule: less_induct)
  case less
  show ?case
  proof (cases "edge s = 0")
    case True
    then have "has_returned_every_line s" using has_returned_iff_edge [OF less.prems] by simp
    then have "read_lines s = Some (Inr [])" by (simp add: read_lines.simps [of s])
    then show ?thesis using True by (simp add: file_lines_def)
  next
    case False
    then have nr: "\<not> has_returned_every_line s" using has_returned_iff_edge [OF less.prems] by simp
    from False next_line_ok [OF less.prems] obtain r s' eol where
      n: "next_line s = Some (Inr (r, s'))" "consistent f s'" "edge s' < edge s"
      "file_lines (take (edge s) f) = file_lines (take (edge s') f) @ [(r, eol)]"
      by blast
    from less.hyps [OF n(3) n(2)] have
      "read_lines s' = Some (Inr (rev (map fst (file_lines (take (edge s') f)))))" .
    then have "read_lines s = Some (Inr (r # rev (map fst (file_lines (take (edge s') f)))))"
      using nr n(1) by (simp add: read_lines.simps [of s])
    then show ?thesis using n(4) by simp
  qed
qed

lemma next_lines_ok:
  assumes "consistent f s" "n \<le> length (file_lines (take (edge s) f))"
  shows "\<exists>s'. next_lines n s =
             Some (Inr (take n (rev (map fst (file_lines (take (edge s) f)))), s')) \<and>
           consistent f s' \<and>
           length (file_lines (take (edge s') f)) = length (file_lines (take (edge s) f)) - n"
  using assms
proof (induction n arbitrary: s)
  case 0
  then show ?case by simp
next
  case (Suc n)
  from Suc.prems(2) have "file_lines (take (edge s) f) \<noteq> []" by auto
  then have "0 < edge s" using file_lines_Nil_iff by fastforce
  from next_line_ok [OF Suc.prems(1) this] obtain r s1 eol where
    n: "next_line s = Some (Inr (r, s1))" "consistent f s1"
    "file_lines (take (edge s) f) = file_lines (take (edge s1) f) @ [(r, eol)]"
    by blast
  from Suc.prems(2) n(3) have "n \<le> length (file_lines (take (edge s1) f))" by simp
  from Suc.IH [OF n(2) this] obtain s' where
    i: "next_lines n s1 = Some (Inr (take n (rev (map fst (file_lines (take (edge s1) f)))), s'))"
    "consistent f s'"
    "length (file_lines (take (edge s') f)) = length (file_lines (take (edge s1) f)) - n"
    by blast
  have "next_lines (Suc n) s =
      Some (Inr (r # take n (rev (map fst (file_lines (take (edge s1) f)))), s'))"
    using n(1) i(1) by simp
  then show ?case using i(2,3) n(3) by auto
qed

lemma has_returned_iff_no_lines:
  assumes "consistent f s"
  shows "has_returned_every_line s \<longleftrightarrow> file_lines (take (edge s) f) = []"
  using has_returned_iff_edge [OF assms] consistent_edge_le [OF assms]
  by (auto simp: file_lines_Nil_iff)

section \<open>Any list of newline sequences; any order of the operations\<close>

lemma file_lines_terminators:
  "list_all is_terminator (butlast (map snd (lines_from acc f)))"
  "list_all (\<lambda>t. is_terminator t \<or> t = []) (map snd (lines_from acc f))"
  by (induction acc f rule: lines_from.induct) (auto simp: is_terminator_def)

lemma file_lines_eol_free:
  "eol_free acc \<Longrightarrow> list_all eol_free (map fst (lines_from acc f))"
  by (induction acc f rule: lines_from.induct) (auto simp: eol_free_def)

lemma concat_map2_fst_snd:
  "concat (map2 (@) (map fst xs) (map snd xs)) = concat (map (\<lambda>(l, t). l @ t) xs)"
  by (induction xs) auto

lemma remove_first_match_spec:
  assumes "[] \<notin> set ns" and "sorted_wrt (\<lambda>a b. length b \<le> length a) ns"
  shows "\<exists>n. line = remove_first_match line ns @ n \<and>
           (n \<in> set ns \<and> endswith line n \<or> n = [] \<and> (\<forall>m\<in>set ns. \<not> endswith line m)) \<and>
           (\<forall>m\<in>set ns. endswith line m \<longrightarrow> length m \<le> length n)"
  using assms
proof (induction ns)
  case Nil
  then show ?case by simp
next
  case (Cons a ns)
  show ?case
  proof (cases "endswith line a")
    case True
    then have "line = take (length line - length a) line @ a"
      unfolding endswith_def by (metis append_take_drop_id)
    moreover have "remove_first_match line (a # ns) = take (length line - length a) line"
      using True Cons.prems(1) by auto
    moreover have "\<forall>m\<in>set (a # ns). length m \<le> length a" using Cons.prems(2) by auto
    ultimately show ?thesis using True by (intro exI [of _ a]) auto
  next
    case False
    from Cons.prems have "[] \<notin> set ns" "sorted_wrt (\<lambda>a b. length b \<le> length a) ns" by auto
    from Cons.IH [OF this] obtain n where
      n: "line = remove_first_match line ns @ n"
      "n \<in> set ns \<and> endswith line n \<or> n = [] \<and> (\<forall>m\<in>set ns. \<not> endswith line m)"
      "\<forall>m\<in>set ns. endswith line m \<longrightarrow> length m \<le> length n"
      by blast
    have "remove_first_match line (a # ns) = remove_first_match line ns" using False by simp
    then show ?thesis using n False by (intro exI [of _ n]) auto
  qed
qed

lemma sorted_len_reverse_props:
  "set (sorted_len_reverse xs) = set xs"
  "sorted_wrt (\<lambda>a b. length b \<le> length a) (sorted_len_reverse xs)"
proof -
  show "set (sorted_len_reverse xs) = set xs" unfolding sorted_len_reverse_def by simp
  have "sorted (map length (sort_key length (rev xs)))" by (rule sorted_sort_key)
  then have "sorted_wrt (\<lambda>a b. length a \<le> length b) (sort_key length (rev xs))"
    by (simp add: sorted_wrt_map)
  then show "sorted_wrt (\<lambda>a b. length b \<le> length a) (sorted_len_reverse xs)"
    unfolding sorted_len_reverse_def by (simp add: sorted_wrt_rev)
qed

lemma remove_trailing_spec:
  assumes "[] \<notin> set nls"
  shows "\<exists>n. line = remove_trailing_new_line line nls @ n \<and>
           (n \<in> set nls \<and> endswith line n \<or> n = [] \<and> (\<forall>m\<in>set nls. \<not> endswith line m)) \<and>
           (\<forall>m\<in>set nls. endswith line m \<longrightarrow> length m \<le> length n)"
proof -
  have "[] \<notin> set (sorted_len_reverse nls)" using assms by (simp add: sorted_len_reverse_props)
  from remove_first_match_spec [OF this sorted_len_reverse_props(2), of line]
  show ?thesis unfolding remove_trailing_new_line_def sorted_len_reverse_props(1) .
qed

lemma bytes_rfind_nonneg_iff: "0 \<le> bytes_rfind t n \<longleftrightarrow> (\<exists>j. occurs_at t n j)"
  using bytes_rfind_none [of t n] bytes_rfind_some(1) [of t n] by (meson not_le)

lemma find_furthest_spec:
  assumes "nls \<noteq> []"
  shows "\<exists>i. find_furthest_new_line t nls = Inr i \<and> - 1 \<le> i \<and>
           (0 \<le> i \<longleftrightarrow> (\<exists>n\<in>set nls. \<exists>j. occurs_at t n j))"
proof -
  from assms obtain p ps where ps: "map (bytes_rfind t) nls = p # ps"
    by (cases nls) auto
  let ?i = "Max (set (p # ps))"
  have i: "find_furthest_new_line t nls = Inr ?i"
    unfolding find_furthest_new_line_def ps using fold_max_Max [of ps p] by simp
  have s: "set (p # ps) = bytes_rfind t ` set nls" using ps by (metis list.set_map)
  have "0 \<le> ?i \<longleftrightarrow> (\<exists>a\<in>set (p # ps). 0 \<le> a)" by (subst Max_ge_iff) auto
  also have "\<dots> \<longleftrightarrow> (\<exists>n\<in>set nls. \<exists>j. occurs_at t n j)"
    unfolding s by (simp add: bytes_rfind_nonneg_iff)
  finally have 1: "0 \<le> ?i \<longleftrightarrow> (\<exists>n\<in>set nls. \<exists>j. occurs_at t n j)" .
  have "- 1 \<le> p" using ps bytes_rfind_ge by (cases nls) auto
  then have "- 1 \<le> ?i" by (subst Max_ge_iff) auto
  with i 1 show ?thesis by blast
qed

lemma is_terminator_iff: "is_terminator n \<longleftrightarrow> n \<in> set default_new_lines"
  unfolding is_terminator_def default_new_lines_def by auto

lemma remove_trailing_default_spec:
  "\<exists>eol. buf = remove_trailing_new_line buf default_new_lines @ eol \<and>
     (is_terminator eol \<and> endswith buf eol \<or>
      eol = [] \<and> (\<forall>m\<in>set default_new_lines. \<not> endswith buf m)) \<and>
     (\<forall>m\<in>set default_new_lines. endswith buf m \<longrightarrow> length m \<le> length eol)"
proof -
  have "[] \<notin> set default_new_lines" by (simp add: default_new_lines_def)
  from remove_trailing_spec [OF this, of buf] show ?thesis unfolding is_terminator_iff .
qed

lemma get_next_chunk_position:
  assumes "get_next_chunk f p cs nls = (content, sp)" "0 \<le> p" "0 < cs"
  shows "0 \<le> sp" "sp \<le> max (p - cs) 0"
proof -
  obtain rs where g: "get_what_to_read_next f p cs nls = (sp, rs)"
    using assms(1) unfolding get_next_chunk_def
    by (cases "get_what_to_read_next f p cs nls") auto
  from get_what_to_read_next_bounds [OF g assms(2,3)]
  show "0 \<le> sp" "sp \<le> max (p - cs) 0" by auto
qed

lemma add_to_buffer_fields:
  "read_position (add_to_buffer s content sp) = sp"
  "read_buffer (add_to_buffer s content sp) \<noteq> None"
  "fp (add_to_buffer s content sp) = fp s"
  "chunk_size (add_to_buffer s content sp) = chunk_size s"
  "new_lines_bytes (add_to_buffer s content sp) = new_lines_bytes s"
  "encoding (add_to_buffer s content sp) = encoding s"
  unfolding add_to_buffer_def by (auto split: option.splits)

lemma yieldable_at_start:
  assumes "read_position s = 0" "read_buffer s \<noteq> None"
  shows "yieldable s \<noteq> Inr False"
  using assms unfolding yieldable_def by (auto split: option.splits sum.splits)

lemma yieldable_total:
  assumes "new_lines_bytes s \<noteq> []"
  shows "\<exists>b. yieldable s = Inr b"
proof (cases "read_buffer s")
  case None
  then show ?thesis by (intro exI [of _ False]) (simp add: yieldable_def)
next
  case (Some buf)
  from find_furthest_spec [OF assms, of "remove_trailing_new_line buf (new_lines_bytes s)"]
  obtain i where "find_furthest_new_line (remove_trailing_new_line buf (new_lines_bytes s))
      (new_lines_bytes s) = Inr i" by blast
  with Some show ?thesis by (auto simp: yieldable_def)
qed

lemma fill_general:
  assumes "0 < chunk_size s" "0 \<le> read_position s"
  shows "\<exists>y. read_until_yieldable s = Some y \<and>
           (\<forall>s'. y = Inr s' \<longrightarrow>
              yieldable s' = Inr True \<and> 0 \<le> read_position s' \<and>
              read_position s' \<le> read_position s \<and> fp s' = fp s \<and>
              chunk_size s' = chunk_size s \<and> new_lines_bytes s' = new_lines_bytes s \<and>
              encoding s' = encoding s) \<and>
           (new_lines_bytes s \<noteq> [] \<longrightarrow> (\<exists>s'. y = Inr s'))"
  using assms
proof (induction "2 * nat (read_position s) + (if read_buffer s = None then 1 else 0)"
    arbitrary: s rule: less_induct)
  case less
  show ?case
  proof (cases "yieldable s")
    case (Inl e)
    then have "read_until_yieldable s = Some (Inl e)"
      by (simp add: read_until_yieldable.simps [of s])
    moreover have "new_lines_bytes s = []" using Inl yieldable_total [of s] by auto
    ultimately show ?thesis by simp
  next
    case (Inr ready)
    show ?thesis
    proof (cases ready)
      case True
      with Inr have "read_until_yieldable s = Some (Inr s)"
        by (simp add: read_until_yieldable.simps [of s])
      with Inr True less.prems show ?thesis by simp
    next
      case False
      obtain content sp where
        g: "get_next_chunk (fp s) (read_position s) (chunk_size s) (new_lines_bytes s) = (content, sp)"
        by (cases "get_next_chunk (fp s) (read_position s) (chunk_size s) (new_lines_bytes s)")
      let ?s1 = "add_to_buffer s content sp"
      note n = get_next_chunk_position [OF g less.prems(2,1)]
      note a = add_to_buffer_fields [of s content sp]
      have r: "read_until_yieldable s = read_until_yieldable ?s1"
        using Inr False g by (simp add: read_until_yieldable.simps [of s])
      have "2 * nat (read_position ?s1) + (if read_buffer ?s1 = None then 1 else 0)
          < 2 * nat (read_position s) + (if read_buffer s = None then 1 else (0::nat))"
      proof (cases "0 < read_position s")
        case True
        then have "sp < read_position s" using n(2) less.prems(1) by auto
        then show ?thesis using a(1,2) n(1) by auto
      next
        case F: False
        with less.prems(2) have z: "read_position s = 0" by simp
        have "read_buffer s = None"
        proof (rule ccontr)
          assume "read_buffer s \<noteq> None"
          from yieldable_at_start [OF z this] Inr False show False by simp
        qed
        moreover have "sp = 0" using n z less.prems(1) by auto
        ultimately show ?thesis using a(1,2) z by simp
      qed
      then have "\<exists>y. read_until_yieldable ?s1 = Some y \<and>
           (\<forall>s'. y = Inr s' \<longrightarrow>
              yieldable s' = Inr True \<and> 0 \<le> read_position s' \<and>
              read_position s' \<le> read_position ?s1 \<and> fp s' = fp ?s1 \<and>
              chunk_size s' = chunk_size ?s1 \<and> new_lines_bytes s' = new_lines_bytes ?s1 \<and>
              encoding s' = encoding ?s1) \<and>
           (new_lines_bytes ?s1 \<noteq> [] \<longrightarrow> (\<exists>s'. y = Inr s'))"
      proof (rule less.hyps)
        show "0 < chunk_size ?s1" using a(4) less.prems(1) by simp
        show "0 \<le> read_position ?s1" using a(1) n(1) by simp
      qed
      then obtain y where y: "read_until_yieldable ?s1 = Some y"
        "\<And>s'. y = Inr s' \<Longrightarrow>
              yieldable s' = Inr True \<and> 0 \<le> read_position s' \<and>
              read_position s' \<le> sp \<and> fp s' = fp s \<and>
              chunk_size s' = chunk_size s \<and> new_lines_bytes s' = new_lines_bytes s \<and>
              encoding s' = encoding s"
        "new_lines_bytes s \<noteq> [] \<Longrightarrow> \<exists>s'. y = Inr s'"
        unfolding a by blast
      have le: "sp \<le> read_position s" using n less.prems by auto
      have "\<forall>s'. y = Inr s' \<longrightarrow>
              yieldable s' = Inr True \<and> 0 \<le> read_position s' \<and>
              read_position s' \<le> read_position s \<and> fp s' = fp s \<and>
              chunk_size s' = chunk_size s \<and> new_lines_bytes s' = new_lines_bytes s \<and>
              encoding s' = encoding s"
      proof (intro allI impI)
        fix s' assume "y = Inr s'"
        from y(2) [OF this] le show "yieldable s' = Inr True \<and> 0 \<le> read_position s' \<and>
              read_position s' \<le> read_position s \<and> fp s' = fp s \<and>
              chunk_size s' = chunk_size s \<and> new_lines_bytes s' = new_lines_bytes s \<and>
              encoding s' = encoding s" by simp
      qed
      moreover have "read_until_yieldable s = Some y" using r y(1) by (rule trans)
      ultimately show ?thesis using y(3) by blast
    qed
  qed
qed

lemma return_line_fields:
  assumes "return_line s = Inr (r, s')"
  shows "read_position s' = read_position s" "fp s' = fp s" "chunk_size s' = chunk_size s"
    "yieldable s = Inr True"
  using assms unfolding return_line_def
  by (auto simp: Let_def split: sum.splits option.splits if_splits bool.splits)

lemma reachable_invariant:
  assumes "0 < cs" "reachable f cs enc s"
  shows "fp s = f \<and> chunk_size s = cs \<and> 0 \<le> read_position s \<and> read_position s \<le> int (length f)"
  using assms(2)
proof (induction rule: reachable.induct)
  case start
  then show ?case by (simp add: init_def get_file_size_def)
next
  case (fill s s')
  then have "0 < chunk_size s" "0 \<le> read_position s" using assms(1) by auto
  from fill_general [OF this] fill.hyps(2) fill.IH show ?case by auto
next
  case (produce s r s')
  then show ?case using return_line_fields [OF produce.hyps(2)] by simp
qed

lemma sorted_hd_le: "sorted (xs :: nat list) \<Longrightarrow> x \<in> set xs \<Longrightarrow> hd xs \<le> x"
  by (induction xs) auto

lemma bytes_find_ge1_iff:
  "1 \<le> bytes_find n b \<longleftrightarrow> (\<exists>i\<in>{1..length n}. occurs_at n b i \<and> (\<forall>j<i. \<not> occurs_at n b j))"
proof
  assume a: "1 \<le> bytes_find n b"
  then obtain i rest where os: "occurrences n b = i # rest" and i: "1 \<le> i"
    unfolding bytes_find_def by (auto split: list.splits)
  have "i \<in> set (occurrences n b)" using os by simp
  then have o: "occurs_at n b i" using set_occurrences by simp
  then have "i \<le> length n" unfolding occurs_at_def by simp
  moreover have "\<not> occurs_at n b j" if "j < i" for j
  proof
    assume "occurs_at n b j"
    then have "j \<in> set (occurrences n b)" using set_occurrences by simp
    from sorted_hd_le [OF sorted_occurrences this] os that show False by simp
  qed
  ultimately show "\<exists>i\<in>{1..length n}. occurs_at n b i \<and> (\<forall>j<i. \<not> occurs_at n b j)"
    using i o by auto
next
  assume "\<exists>i\<in>{1..length n}. occurs_at n b i \<and> (\<forall>j<i. \<not> occurs_at n b j)"
  then obtain i where i: "1 \<le> i" "occurs_at n b i" "\<forall>j<i. \<not> occurs_at n b j" by auto
  then have m: "i \<in> set (occurrences n b)" using set_occurrences by simp
  then obtain h rest where os: "occurrences n b = h # rest" by (cases "occurrences n b") auto
  then have "h \<in> set (occurrences n b)" by simp
  then have "occurs_at n b h" using set_occurrences by simp
  with i(3) have "i \<le> h" by (meson not_le)
  then show "1 \<le> bytes_find n b" using os i(1) unfolding bytes_find_def by simp
qed

lemma is_partially_read_new_line_find:
  "is_partially_read_new_line b nls \<longleftrightarrow> (\<exists>n\<in>set nls. 1 \<le> bytes_find n b)"
  by (induction nls) auto

lemma is_partially_read_new_line_iff:
  "is_partially_read_new_line b nls \<longleftrightarrow> first_found_late b nls"
  unfolding first_found_late_def is_partially_read_new_line_find bytes_find_ge1_iff ..

lemma walk_back_spec:
  "walk_back f nls sp rs = (sp', rs') \<Longrightarrow>
     (\<forall>q. sp' < q \<and> q \<le> sp \<longrightarrow> is_partially_read_new_line (seek_read f q 1) nls) \<and>
     (0 < sp' \<longrightarrow> \<not> is_partially_read_new_line (seek_read f sp' 1) nls)"
proof (induction f nls sp rs rule: walk_back.induct)
  case (1 f nls sp rs)
  show ?case
  proof (cases "sp > 0 \<and> is_partially_read_new_line (seek_read f sp 1) nls")
    case True
    with "1.prems" have w: "walk_back f nls (sp - 1) (rs + 1) = (sp', rs')"
      by (simp add: walk_back.simps [of f nls sp rs])
    from "1.IH" [OF _ _ w] True have
      ih: "\<forall>q. sp' < q \<and> q \<le> sp - 1 \<longrightarrow> is_partially_read_new_line (seek_read f q 1) nls"
      "0 < sp' \<longrightarrow> \<not> is_partially_read_new_line (seek_read f sp' 1) nls"
      by auto
    have "is_partially_read_new_line (seek_read f q 1) nls" if "sp' < q" "q \<le> sp" for q
    proof (cases "q = sp")
      case True
      then show ?thesis using \<open>sp > 0 \<and> is_partially_read_new_line (seek_read f sp 1) nls\<close> by simp
    next
      case False
      then have "q \<le> sp - 1" using that by simp
      then show ?thesis using ih(1) that(1) by blast
    qed
    then show ?thesis using ih(2) by blast
  next
    case False
    with "1.prems" have "sp' = sp"
      by (auto simp: walk_back.simps [of f nls sp rs] split: if_splits)
    then show ?thesis using False by auto
  qed
qed

section \<open>Split-safe newline sequences: the lines do not depend on the chunk size\<close>

lemma split_safe_code [code]: "split_safe nls = split_safe_list nls"
  unfolding split_safe_def split_safe_list_def remove_trailing_new_line_def
  by (auto simp: list_all_iff)






lemma find_furthest_neg:
  assumes "find_furthest_new_line t nls = Inr i" and "i < 0" and "m \<in> set nls"
  shows "\<not> occurs_at t m j"
proof -
  have ne: "nls \<noteq> []" using assms(3) by auto
  from find_furthest_spec [OF ne, of t] assms(1,2,3) show ?thesis by auto
qed









lemma buffered_edge_le: "buffered f s \<Longrightarrow> edge s \<le> length f"
  unfolding buffered_def edge_def by (auto split: option.splits)









section \<open>The newline bytes \<open>\r\n\<close>, \<open>\n\<close>, \<open>\r\<close>: round trip, \<open>return_line\<close>, the residual buffer\<close>

text \<open>
  With the newline sequences of UTF-8, ASCII and Latin-1 the backward iteration ends for
  every file and positive chunk size; its lines, reversed, are the lines of the file read
  forwards, and putting back the terminators gives back the file.
\<close>

lemma round_trip:
  assumes "0 < cs" and "map enc new_lines = default_new_lines"
  shows "\<exists>ls. read_lines (init f cs enc) = Some (Inr ls) \<and>
           rev ls = map fst (file_lines f) \<and>
           concat (map2 (@) (rev ls) (map snd (file_lines f))) = f \<and>
           list_all is_terminator (butlast (map snd (file_lines f))) \<and>
           list_all (\<lambda>t. is_terminator t \<or> t = []) (map snd (file_lines f)) \<and>
           list_all eol_free ls"
proof -
  note c = init_consistent [OF assms, of f]
  have "read_lines (init f cs enc) = Some (Inr (rev (map fst (file_lines f))))"
    using read_lines_ok [OF c(1)] c(2) by simp
  moreover have "concat (map2 (@) (map fst (file_lines f)) (map snd (file_lines f))) = f"
    unfolding concat_map2_fst_snd file_lines_def concat_lines_from by simp
  moreover have "list_all eol_free (rev (map fst (file_lines f)))"
    using file_lines_eol_free [of "[]" f] by (simp add: file_lines_def eol_free_def list_all_iff)
  ultimately show ?thesis
    using file_lines_terminators [of "[]" f] by (simp add: file_lines_def)
qed

text \<open>
  There \<open>return_line\<close> splits the stripped buffer after its rightmost terminator byte,
  and the line it returns holds no terminator byte.
\<close>

lemma return_line_spec:
  assumes "new_lines_bytes s = default_new_lines" and "yieldable s = Inr True"
  shows "\<exists>buf t eol. read_buffer s = Some buf \<and>
           t = remove_trailing_new_line buf default_new_lines \<and> buf = t @ eol \<and>
           (is_terminator eol \<and> endswith buf eol \<or>
            eol = [] \<and> (\<forall>m\<in>set default_new_lines. \<not> endswith buf m)) \<and>
           (\<forall>m\<in>set default_new_lines. endswith buf m \<longrightarrow> length m \<le> length eol) \<and>
           ((\<exists>i<length t. (t ! i = CR \<or> t ! i = LF) \<and> eol_free (drop (Suc i) t) \<and>
               return_line s = Inr (drop (Suc i) t, s\<lparr>read_buffer := Some (take (Suc i) t)\<rparr>)) \<or>
            (eol_free t \<and> return_line s = Inr (t, s\<lparr>read_buffer := None\<rparr>))) \<and>
           (\<forall>r s'. return_line s = Inr (r, s') \<longrightarrow> eol_free r)"
  using assms
proof (cases rule: return_line_cases)
  case (split b u l eol)
  let ?t = "remove_trailing_new_line b default_new_lines"
  let ?i = "length u - 1"
  have i: "Suc ?i = length u" using split(3) by (cases u) auto
  have "?i < length ?t" using split(8) split(3) by (cases u) auto
  moreover have "?t ! ?i = last u"
    using split(8) split(3) by (simp add: nth_append last_conv_nth)
  moreover have "drop (Suc ?i) ?t = l" "take (Suc ?i) ?t = u" unfolding i split(8) by simp_all
  ultimately have
    "\<exists>i<length ?t. (?t ! i = CR \<or> ?t ! i = LF) \<and> eol_free (drop (Suc i) ?t) \<and>
       return_line s = Inr (drop (Suc i) ?t, s\<lparr>read_buffer := Some (take (Suc i) ?t)\<rparr>)"
    using split(4,5,9) by (intro exI [of _ ?i]) simp
  moreover have "\<forall>r s'. return_line s = Inr (r, s') \<longrightarrow> eol_free r" using split(5,9) by simp
  ultimately show ?thesis
    using split(1) remove_trailing_default_spec [of b] by blast
next
  case (final b t eol)
  then have "\<forall>r s'. return_line s = Inr (r, s') \<longrightarrow> eol_free r" by simp
  then show ?thesis
    using final(1,3,6,7) remove_trailing_default_spec [of b] by blast
qed

text \<open>
  There the buffer \<open>return_line\<close> leaves ends with a recognised terminator, which the
  next strip removes.
\<close>

lemma residual_buffer_terminated:
  assumes d: "new_lines_bytes s = default_new_lines"
    and y: "yieldable s = Inr True"
    and b: "read_buffer s = Some buf"
    and i: "find_furthest_new_line (remove_trailing_new_line buf default_new_lines)
              default_new_lines = Inr i"
    and p: "0 \<le> i"
  shows "\<exists>r u rest n. return_line s = Inr (r, s\<lparr>read_buffer := Some u\<rparr>) \<and>
           u = take (nat (i + 1)) (remove_trailing_new_line buf default_new_lines) \<and>
           u \<noteq> [] \<and> buf = u @ rest \<and>
           \<not> (last u = CR \<and> rest \<noteq> [] \<and> hd rest = LF) \<and>
           is_terminator n \<and> endswith u n \<and>
           (\<forall>m\<in>set default_new_lines. endswith u m \<longrightarrow> length m \<le> length n) \<and>
           u = remove_trailing_new_line u default_new_lines @ n"
proof -
  let ?t = "remove_trailing_new_line buf default_new_lines"
  let ?u = "take (nat (i + 1)) ?t"
  have r: "return_line s = Inr (drop (nat (i + 1)) ?t, s\<lparr>read_buffer := Some ?u\<rparr>)"
    using d y b i p by (simp add: return_line_def Let_def)
  from d y show ?thesis
  proof (cases rule: return_line_cases)
    case (split b' u l eol)
    with b have bb: "b' = buf" by simp
    from split(9) r have "s\<lparr>read_buffer := Some u\<rparr> = s\<lparr>read_buffer := Some ?u\<rparr>" by simp
    then have "read_buffer (s\<lparr>read_buffer := Some u\<rparr>) = read_buffer (s\<lparr>read_buffer := Some ?u\<rparr>)"
      by (rule arg_cong)
    then have u: "u = ?u" by simp
    have hd: "\<not> (last u = CR \<and> l @ eol \<noteq> [] \<and> hd (l @ eol) = LF)"
    proof (cases l)
      case Nil
      with split(6,7) show ?thesis by (auto simp: is_terminator_def)
    next
      case (Cons a as)
      with split(5) show ?thesis by (auto simp: eol_free_def)
    qed
    from remove_trailing_default_spec [of u] obtain n where
      n: "u = remove_trailing_new_line u default_new_lines @ n"
      "is_terminator n \<and> endswith u n \<or> n = [] \<and> (\<forall>m\<in>set default_new_lines. \<not> endswith u m)"
      "\<forall>m\<in>set default_new_lines. endswith u m \<longrightarrow> length m \<le> length n"
      by blast
    have "endswith u [last u]" using split(3) by (simp add: endswith_single)
    moreover have "[last u] \<in> set default_new_lines"
      using split(4) by (auto simp: default_new_lines_def)
    ultimately have tn: "is_terminator n" "endswith u n" using n(2) by blast+
    have r': "return_line s = Inr (drop (nat (i + 1)) ?t, s\<lparr>read_buffer := Some u\<rparr>)"
      using r u by simp
    have bu: "buf = u @ (l @ eol)" using split(2) bb by simp
    have "return_line s = Inr (drop (nat (i + 1)) ?t, s\<lparr>read_buffer := Some u\<rparr>) \<and>
           u = ?u \<and> u \<noteq> [] \<and> buf = u @ (l @ eol) \<and>
           \<not> (last u = CR \<and> l @ eol \<noteq> [] \<and> hd (l @ eol) = LF) \<and>
           is_terminator n \<and> endswith u n \<and>
           (\<forall>m\<in>set default_new_lines. endswith u m \<longrightarrow> length m \<le> length n) \<and>
           u = remove_trailing_new_line u default_new_lines @ n"
      using r' u split(3) bu hd tn n(3) n(1) by (intro conjI)
    then show ?thesis by (intro exI)
  next
    case (final b' t eol)
    from final(7) r have "s\<lparr>read_buffer := None\<rparr> = s\<lparr>read_buffer := Some ?u\<rparr>" by simp
    then have "read_buffer (s\<lparr>read_buffer := None\<rparr>) = read_buffer (s\<lparr>read_buffer := Some ?u\<rparr>)"
      by (rule arg_cong)
    then show ?thesis by simp
  qed
qed

section \<open>The next read, for every list of newline sequences\<close>

text \<open>
  The walk back goes on while the byte read is \<^emph>\<open>first\<close> found at an index \<open>\<ge> 1\<close> of
  some newline sequence, which is what \<open>n.find(b) >= 1\<close> tests.
\<close>

lemma get_what_to_read_next_spec:
  "next_read_spec first_found_late f prev cs nls (get_what_to_read_next f prev cs nls)"
proof -
  let ?sp0 = "max (prev - cs) 0"
  obtain sp rs where w: "walk_back f nls ?sp0 cs = (sp, rs)"
    by (cases "walk_back f nls ?sp0 cs")
  then have g: "get_what_to_read_next f prev cs nls = (sp, min (prev - sp) rs)"
    unfolding get_what_to_read_next_def by simp
  from walk_back_result [OF w] have b: "sp \<le> ?sp0" "0 \<le> sp" "rs = cs + (?sp0 - sp)" by auto
  note s = walk_back_spec [OF w, unfolded is_partially_read_new_line_iff]
  have "\<forall>q\<in>{sp<..?sp0}. first_found_late (seek_read f q 1) nls" using s by auto
  moreover have "sp = 0 \<or> \<not> first_found_late (seek_read f sp 1) nls" using s b(2) by auto
  ultimately show ?thesis
    unfolding g next_read_spec_def using b by (simp add: min.commute)
qed

text \<open>
  With ``occurs at some index \<open>\<ge> 1\<close>'' the relation fails on UTF-32: the zero byte at
  offset \<open>6\<close> occurs at index \<open>1\<close> of a sequence and the walk stops on it.
\<close>

lemma next_read_spec_fails_utf_32:
  "\<not> next_read_spec continuation_byte
       (utf_32_be [CHR ''a'', LF]) 8 2 (map utf_32_be new_lines)
       (get_what_to_read_next (utf_32_be [CHR ''a'', LF]) 8 2 (map utf_32_be new_lines))"
proof -
  have e: "get_what_to_read_next (utf_32_be [CHR ''a'', LF]) 8 2 (map utf_32_be new_lines) = (6, 2)"
    by code_simp
  have r: "seek_read (utf_32_be [CHR ''a'', LF]) 6 1 = [CHR 0x00]" by code_simp
  have c: "continuation_byte [CHR 0x00] (map utf_32_be new_lines)" by code_simp
  show ?thesis unfolding e next_read_spec_def using r c by simp
qed

section \<open>The claims\<close>

text \<open>
  Claim C1 (round trip), on an encoding with four-byte newline sequences.  The file is
  \<open>a \n b\<close> in UTF-32 (big endian), twelve bytes.  The iteration ends with two lines,
  but they are not \<open>b\<close> and \<open>a\<close>: \<open>return_line\<close> cuts one byte after the \<^emph>\<open>start\<close> of
  the terminator, so the last three bytes of the terminator go to the first line and its
  first byte stays with the second.  The two lines, reversed, already are the whole file;
  no terminator can be put back.
\<close>

theorem round_trip_utf_32:
  "read_lines (init (utf_32_be [CHR ''a'', LF, CHR ''b'']) 100 utf_32_be) =
     Some (Inr [[CHR 0x00, CHR 0x00, LF, CHR 0x00, CHR 0x00, CHR 0x00, CHR ''b''],
                [CHR 0x00, CHR 0x00, CHR 0x00, CHR ''a'', CHR 0x00]]) \<and>
   utf_32_be [CHR ''a'', LF, CHR ''b''] =
     [CHR 0x00, CHR 0x00, CHR 0x00, CHR ''a'', CHR 0x00] @
     [CHR 0x00, CHR 0x00, LF, CHR 0x00, CHR 0x00, CHR 0x00, CHR ''b''] \<and>
   map utf_32_be new_lines =
     [[CHR 0x00, CHR 0x00, CHR 0x00, CR, CHR 0x00, CHR 0x00, CHR 0x00, LF],
      [CHR 0x00, CHR 0x00, CHR 0x00, LF], [CHR 0x00, CHR 0x00, CHR 0x00, CR]]"
  by code_simp

text \<open>
  Claim C2, as the code has it.  \<open>yieldable\<close> is false when the buffer is absent
  (\<open>None\<close>).  For a buffer that is present, the empty byte string included: one trailing
  terminator, the longest that ends the buffer, is cut off (nothing when none ends it);
  \<open>yieldable\<close> is true if a terminator occurs in what is left, true if none occurs and
  \<open>read_position\<close> is \<open>0\<close>, and false otherwise.  This holds for every non-empty list of
  non-empty newline sequences.
\<close>

theorem yieldable_spec:
  assumes "new_lines_bytes s \<noteq> []" and "[] \<notin> set (new_lines_bytes s)"
  shows "(read_buffer s = None \<longrightarrow> yieldable s = Inr False) \<and>
         (\<forall>buf. read_buffer s = Some buf \<longrightarrow>
            (\<exists>eol. buf = remove_trailing_new_line buf (new_lines_bytes s) @ eol \<and>
               (eol \<in> set (new_lines_bytes s) \<and> endswith buf eol \<or>
                eol = [] \<and> (\<forall>m\<in>set (new_lines_bytes s). \<not> endswith buf m)) \<and>
               (\<forall>m\<in>set (new_lines_bytes s). endswith buf m \<longrightarrow> length m \<le> length eol)) \<and>
            yieldable s =
              Inr ((\<exists>n\<in>set (new_lines_bytes s).
                      \<exists>j. occurs_at (remove_trailing_new_line buf (new_lines_bytes s)) n j) \<or>
                   read_position s = 0))"
proof (intro conjI allI impI)
  assume "read_buffer s = None"
  then show "yieldable s = Inr False" by (simp add: yieldable_def)
next
  fix buf assume b: "read_buffer s = Some buf"
  show "\<exists>eol. buf = remove_trailing_new_line buf (new_lines_bytes s) @ eol \<and>
               (eol \<in> set (new_lines_bytes s) \<and> endswith buf eol \<or>
                eol = [] \<and> (\<forall>m\<in>set (new_lines_bytes s). \<not> endswith buf m)) \<and>
               (\<forall>m\<in>set (new_lines_bytes s). endswith buf m \<longrightarrow> length m \<le> length eol)"
    by (rule remove_trailing_spec [OF assms(2)])
  let ?t = "remove_trailing_new_line buf (new_lines_bytes s)"
  from find_furthest_spec [OF assms(1), of ?t] obtain i where
    i: "find_furthest_new_line ?t (new_lines_bytes s) = Inr i"
    "0 \<le> i \<longleftrightarrow> (\<exists>n\<in>set (new_lines_bytes s). \<exists>j. occurs_at ?t n j)"
    by blast
  show "yieldable s =
      Inr ((\<exists>n\<in>set (new_lines_bytes s). \<exists>j. occurs_at ?t n j) \<or> read_position s = 0)"
    using b i by (auto simp: yieldable_def)
qed

theorem yieldable_spec_witness:
  "new_lines_bytes (init ''a'' 4 utf_8) \<noteq> [] \<and> [] \<notin> set (new_lines_bytes (init ''a'' 4 utf_8)) \<and>
   yieldable (init ''a'' 4 utf_8) = Inr False \<and>
   yieldable ((init ''a'' 4 utf_8)\<lparr>read_position := 0, read_buffer := Some ''a''\<rparr>) = Inr True"
proof -
  let ?s = "(init ''a'' 4 utf_8)\<lparr>read_position := 0, read_buffer := Some ''a''\<rparr>"
  have h: "new_lines_bytes (init ''a'' 4 utf_8) \<noteq> []" "[] \<notin> set (new_lines_bytes (init ''a'' 4 utf_8))"
    "new_lines_bytes ?s \<noteq> []" "[] \<notin> set (new_lines_bytes ?s)"
    by (simp_all add: init_def default_new_lines_def)
  have 1: "yieldable (init ''a'' 4 utf_8) = Inr False"
    using yieldable_spec [OF h(1,2)] by (simp add: init_def)
  have 2: "yieldable ?s = Inr True"
    using yieldable_spec [OF h(3,4)] by simp
  from h 1 2 show ?thesis by simp
qed

text \<open>
  The empty buffer is not treated as the absent one: on the empty file,
  \<open>read_until_yieldable\<close> leaves the empty byte string as buffer at \<open>read_position = 0\<close>,
  and \<open>yieldable\<close> is true there.
\<close>

theorem yieldable_empty_buffer_counterexample:
  "read_until_yieldable (init [] 1 utf_8) = Some (Inr ((init [] 1 utf_8)\<lparr>read_buffer := Some []\<rparr>)) \<and>
   read_buffer ((init [] 1 utf_8)\<lparr>read_buffer := Some []\<rparr>) = Some [] \<and>
   yieldable ((init [] 1 utf_8)\<lparr>read_buffer := Some []\<rparr>) = Inr True"
proof -
  let ?s = "init [] 1 utf_8"
  have y0: "yieldable ?s = Inr False" by (simp add: yieldable_def init_def)
  have g: "get_next_chunk (fp ?s) (read_position ?s) (chunk_size ?s) (new_lines_bytes ?s) = ([], 0)"
    by (simp add: get_next_chunk_def get_what_to_read_next_def walk_back.simps init_def
        get_file_size_def seek_read_def)
  have a: "add_to_buffer ?s [] 0 = ?s\<lparr>read_buffer := Some []\<rparr>"
    by (simp add: add_to_buffer_def init_def get_file_size_def)
  have y1: "yieldable (?s\<lparr>read_buffer := Some []\<rparr>) = Inr True"
    by (simp add: yieldable_def init_def get_file_size_def remove_trailing_default
        find_furthest_default endswith_def bytes_rfind_def occurrences_def)
  have "read_until_yieldable ?s = read_until_yieldable (?s\<lparr>read_buffer := Some []\<rparr>)"
    using y0 g a by (simp add: read_until_yieldable.simps [of ?s])
  also have "\<dots> = Some (Inr (?s\<lparr>read_buffer := Some []\<rparr>))"
    using y1 by (simp add: read_until_yieldable.simps [of "?s\<lparr>read_buffer := Some []\<rparr>"])
  finally show ?thesis using y1 by simp
qed

text \<open>
  Claim C3, on the same UTF-32 file held whole in the buffer at \<open>read_position = 0\<close>.
  \<open>yieldable\<close> is true, nothing is stripped, and the line \<open>return_line\<close> returns begins
  with the last three bytes of the terminator \<open>00 00 00 0A\<close>: the furthest terminator is
  found at its first byte, offset \<open>4\<close>, and the line is taken from offset \<open>5\<close>.
\<close>

theorem return_line_utf_32:
  "yieldable ((init (utf_32_be [CHR ''a'', LF, CHR ''b'']) 100 utf_32_be)
      \<lparr>read_position := 0, read_buffer := Some (utf_32_be [CHR ''a'', LF, CHR ''b''])\<rparr>) = Inr True \<and>
   remove_trailing_new_line (utf_32_be [CHR ''a'', LF, CHR ''b'']) (map utf_32_be new_lines) =
     utf_32_be [CHR ''a'', LF, CHR ''b''] \<and>
   map_sum id fst (return_line ((init (utf_32_be [CHR ''a'', LF, CHR ''b'']) 100 utf_32_be)
      \<lparr>read_position := 0, read_buffer := Some (utf_32_be [CHR ''a'', LF, CHR ''b''])\<rparr>)) =
     Inr [CHR 0x00, CHR 0x00, LF, CHR 0x00, CHR 0x00, CHR 0x00, CHR ''b'']"
  by code_simp

text \<open>
  Claim C4, on UTF-32 (big endian).  The file is \<open>a \n\<close>, eight bytes, the previously
  read position \<open>8\<close> and the chunk size \<open>2\<close>.  The walk starts at offset \<open>6\<close>, on a zero
  byte inside the terminator at offsets \<open>4..7\<close>.  That byte occurs at index \<open>1\<close> of the
  sequence \<open>00 00 00 0A\<close>, but \<open>find\<close> gives its first occurrence, index \<open>0\<close>, so
  \<open>_is_partially_read_new_line\<close> is false and the read starts at \<open>(6, 2)\<close>, inside the
  terminator.
\<close>

theorem get_what_to_read_next_utf_32:
  "get_what_to_read_next (utf_32_be [CHR ''a'', LF]) 8 2 (map utf_32_be new_lines) = (6, 2) \<and>
   utf_32_be [CHR ''a'', LF] =
     [CHR 0x00, CHR 0x00, CHR 0x00, CHR ''a'', CHR 0x00, CHR 0x00, CHR 0x00, LF] \<and>
   seek_read (utf_32_be [CHR ''a'', LF]) 6 1 = [CHR 0x00] \<and>
   continuation_byte [CHR 0x00] (map utf_32_be new_lines) \<and>
   is_partially_read_new_line [CHR 0x00] (map utf_32_be new_lines) = False"
  by code_simp




text \<open>
  Claim C6.  With a positive chunk size, a non-negative \<open>read_position\<close> (as in every
  reachable object) and a non-empty list of newline sequences, \<open>read_until_yieldable\<close>
  returns, with an object on which \<open>yieldable\<close> is true.  Every read made from a positive
  \<open>read_position\<close> moves it strictly towards \<open>0\<close> and never below, and \<open>yieldable\<close> is
  true as soon as \<open>read_position\<close> is \<open>0\<close> with a buffer present.
\<close>

theorem read_until_yieldable_terminates:
  assumes "0 < chunk_size s" and "0 \<le> read_position s" and "new_lines_bytes s \<noteq> []"
  shows "(\<exists>s'. read_until_yieldable s = Some (Inr s') \<and> yieldable s' = Inr True \<and>
            0 \<le> read_position s' \<and> read_position s' \<le> read_position s) \<and>
         (\<forall>content sp.
            0 < read_position s \<and>
            get_next_chunk (fp s) (read_position s) (chunk_size s) (new_lines_bytes s) = (content, sp) \<longrightarrow>
            0 \<le> sp \<and> sp < read_position s \<and> read_position (add_to_buffer s content sp) = sp) \<and>
         (read_position s = 0 \<and> read_buffer s \<noteq> None \<longrightarrow> yieldable s = Inr True)"
proof (intro conjI allI impI)
  from fill_general [OF assms(1,2)] assms(3)
  show "\<exists>s'. read_until_yieldable s = Some (Inr s') \<and> yieldable s' = Inr True \<and>
            0 \<le> read_position s' \<and> read_position s' \<le> read_position s"
    by blast
next
  fix content sp
  assume a: "0 < read_position s \<and>
    get_next_chunk (fp s) (read_position s) (chunk_size s) (new_lines_bytes s) = (content, sp)"
  then have g: "get_next_chunk (fp s) (read_position s) (chunk_size s) (new_lines_bytes s) = (content, sp)"
    by simp
  from get_next_chunk_position [OF g assms(2,1)] a assms(1)
  show "0 \<le> sp" "sp < read_position s" by auto
  show "read_position (add_to_buffer s content sp) = sp" by (rule add_to_buffer_fields)
next
  assume a: "read_position s = 0 \<and> read_buffer s \<noteq> None"
  from yieldable_total [OF assms(3)] obtain b where "yieldable s = Inr b" by blast
  with yieldable_at_start [of s] a show "yieldable s = Inr True" by (cases b) auto
qed

theorem read_until_yieldable_terminates_witness:
  "0 < chunk_size (init [CHR ''x'', CR, LF, CHR ''y''] 1 utf_8) \<and>
   0 \<le> read_position (init [CHR ''x'', CR, LF, CHR ''y''] 1 utf_8) \<and>
   new_lines_bytes (init [CHR ''x'', CR, LF, CHR ''y''] 1 utf_8) \<noteq> [] \<and>
   map_option (map_sum id read_position)
     (read_until_yieldable (init [CHR ''x'', CR, LF, CHR ''y''] 1 utf_8)) = Some (Inr 1) \<and>
   map_option (map_sum id yieldable)
     (read_until_yieldable (init [CHR ''x'', CR, LF, CHR ''y''] 1 utf_8)) = Some (Inr (Inr True))"
proof -
  let ?s = "init [CHR ''x'', CR, LF, CHR ''y''] 1 utf_8"
  have h: "0 < chunk_size ?s" "0 \<le> read_position ?s" "new_lines_bytes ?s \<noteq> []"
    by (simp_all add: init_def get_file_size_def default_new_lines_def)
  have p: "map_option (map_sum id read_position) (read_until_yieldable ?s) = Some (Inr 1)"
    by code_simp
  from read_until_yieldable_terminates [OF h] obtain s' where
    "read_until_yieldable ?s = Some (Inr s')" "yieldable s' = Inr True" by blast
  then have "map_option (map_sum id yieldable) (read_until_yieldable ?s) = Some (Inr (Inr True))"
    by simp
  with h p show ?thesis by blast
qed

text \<open>
  Claim C7 (boundary invariant).  With a positive chunk size, every object reachable
  from construction by \<open>read_until_yieldable\<close> and \<open>return_line\<close> has
  \<open>0 \<le> read_position \<le> file size\<close>, and neither operation increases \<open>read_position\<close>.
\<close>

theorem read_position_bounds:
  assumes "0 < cs" and "reachable f cs enc s"
  shows "0 \<le> read_position s \<and> read_position s \<le> int (length f) \<and>
         (\<forall>s'. read_until_yieldable s = Some (Inr s') \<longrightarrow> read_position s' \<le> read_position s) \<and>
         (\<forall>r s'. return_line s = Inr (r, s') \<longrightarrow> read_position s' \<le> read_position s)"
proof -
  note i = reachable_invariant [OF assms]
  then have "0 < chunk_size s" "0 \<le> read_position s" using assms(1) by auto
  from fill_general [OF this] obtain y where y: "read_until_yieldable s = Some y"
    "\<And>s'. y = Inr s' \<Longrightarrow> read_position s' \<le> read_position s"
    by blast
  have 1: "\<forall>s'. read_until_yieldable s = Some (Inr s') \<longrightarrow> read_position s' \<le> read_position s"
    using y by simp
  have 2: "\<forall>r s'. return_line s = Inr (r, s') \<longrightarrow> read_position s' \<le> read_position s"
  proof (intro allI impI)
    fix r s' assume "return_line s = Inr (r, s')"
    from return_line_fields(1) [OF this] show "read_position s' \<le> read_position s" by simp
  qed
  from i 1 2 show ?thesis by blast
qed

theorem read_position_bounds_witness:
  "(0::int) < 2 \<and>
   reachable ''ab'' 2 utf_8 ((init ''ab'' 2 utf_8)\<lparr>read_position := 0, read_buffer := Some ''ab''\<rparr>) \<and>
   read_position (init ''ab'' 2 utf_8) = 2 \<and>
   0 \<le> read_position ((init ''ab'' 2 utf_8)\<lparr>read_position := 0, read_buffer := Some ''ab''\<rparr>) \<and>
   read_position ((init ''ab'' 2 utf_8)\<lparr>read_position := 0, read_buffer := Some ''ab''\<rparr>)
     \<le> int (length ''ab'')"
proof -
  let ?s = "init ''ab'' 2 utf_8"
  let ?s1 = "?s\<lparr>read_position := 0, read_buffer := Some ''ab''\<rparr>"
  have h: "(0::int) < 2" by simp
  have y0: "yieldable ?s = Inr False" by (simp add: yieldable_def init_def)
  have g: "get_next_chunk (fp ?s) (read_position ?s) (chunk_size ?s) (new_lines_bytes ?s) = (''ab'', 0)"
    by (simp add: get_next_chunk_def get_what_to_read_next_def walk_back.simps init_def
        get_file_size_def seek_read_def)
  have a: "add_to_buffer ?s ''ab'' 0 = ?s1"
    by (simp add: add_to_buffer_def init_def get_file_size_def)
  have y1: "yieldable ?s1 = Inr True"
    using yieldable_default [of ?s1] by (simp add: init_def)
  have "read_until_yieldable ?s = read_until_yieldable ?s1"
    using y0 g a by (simp add: read_until_yieldable.simps [of ?s])
  also have "\<dots> = Some (Inr ?s1)"
    using y1 by (simp add: read_until_yieldable.simps [of ?s1])
  finally have r: "reachable ''ab'' 2 utf_8 ?s1"
    using reachable.fill [OF reachable.start] by blast
  have p: "read_position ?s = 2" by (simp add: init_def get_file_size_def)
  from read_position_bounds [OF h r] h r p show ?thesis by blast
qed

text \<open>
  Claim C8.  Where \<open>yieldable\<close> is false, \<open>return_line\<close> fails with the assertion error;
  it returns no line and no updated object.
\<close>

theorem return_line_asserts:
  assumes "yieldable s = Inr False"
  shows "return_line s = Inl AssertionError"
  using assms by (simp add: return_line_def)

theorem return_line_asserts_witness:
  "yieldable (init ''ab'' 1 utf_8) = Inr False \<and>
   return_line (init ''ab'' 1 utf_8) = Inl AssertionError"
proof -
  have h: "yieldable (init ''ab'' 1 utf_8) = Inr False"
    by (simp add: yieldable_def init_def)
  from return_line_asserts [OF h] h show ?thesis by simp
qed

text \<open>
  Claim C9, as the code has it.  \<open>has_returned_every_line\<close> is true exactly when
  \<open>read_position\<close> is \<open>0\<close> and the buffer is absent (\<open>None\<close>).  For the empty file it is
  true right after construction and the iteration emits no line.  For every file, a
  positive chunk size and the newline sequences \<open>\r\n\<close>, \<open>\n\<close>, \<open>\r\<close>: after as many
  calls of \<open>next_line\<close> as the file has terminators, plus one if content follows the last
  terminator, that many lines have been returned and \<open>has_returned_every_line\<close> is true;
  after fewer calls it is false.
\<close>

theorem has_returned_every_line_spec:
  assumes "0 < cs" and "map enc new_lines = default_new_lines"
  shows "(has_returned_every_line s \<longleftrightarrow> read_position s = 0 \<and> read_buffer s = None) \<and>
         has_returned_every_line (init [] cs enc) \<and>
         read_lines (init [] cs enc) = Some (Inr []) \<and>
         (\<exists>ls s'. next_lines (line_count f) (init f cs enc) = Some (Inr (ls, s')) \<and>
            length ls = line_count f \<and> has_returned_every_line s') \<and>
         (\<forall>m<line_count f. \<exists>ls s'. next_lines m (init f cs enc) = Some (Inr (ls, s')) \<and>
            length ls = m \<and> \<not> has_returned_every_line s')"
proof (intro conjI allI impI)
  show "has_returned_every_line s \<longleftrightarrow> read_position s = 0 \<and> read_buffer s = None"
    by (simp add: has_returned_every_line_def)
  show e: "has_returned_every_line (init [] cs enc)"
    by (simp add: has_returned_every_line_def init_def get_file_size_def)
  then show "read_lines (init [] cs enc) = Some (Inr [])"
    by (simp add: read_lines.simps [of "init [] cs enc"])
  note c = init_consistent [OF assms, of f]
  have t: "take (edge (init f cs enc)) f = f" using c(2) by simp
  have len: "length (file_lines f) = line_count f" by (rule length_file_lines)
  show "\<exists>ls s'. next_lines (line_count f) (init f cs enc) = Some (Inr (ls, s')) \<and>
            length ls = line_count f \<and> has_returned_every_line s'"
  proof -
    from next_lines_ok [OF c(1), of "line_count f"] t len
    obtain s' where s': "next_lines (line_count f) (init f cs enc) =
        Some (Inr (take (line_count f) (rev (map fst (file_lines f))), s'))"
      "consistent f s'" "length (file_lines (take (edge s') f)) = 0"
      by auto
    then have "has_returned_every_line s'" using has_returned_iff_no_lines [OF s'(2)] by simp
    moreover have "length (take (line_count f) (rev (map fst (file_lines f)))) = line_count f"
      using len by simp
    ultimately show ?thesis using s'(1) by blast
  qed
  fix m assume m: "m < line_count f"
  from next_lines_ok [OF c(1), of m] t len m
  obtain s' where s': "next_lines m (init f cs enc) =
      Some (Inr (take m (rev (map fst (file_lines f))), s'))"
    "consistent f s'" "length (file_lines (take (edge s') f)) = line_count f - m"
    by auto
  then have "\<not> has_returned_every_line s'"
    using has_returned_iff_no_lines [OF s'(2)] m by auto
  moreover have "length (take m (rev (map fst (file_lines f)))) = m" using len m by simp
  ultimately show "\<exists>ls s'. next_lines m (init f cs enc) = Some (Inr (ls, s')) \<and>
            length ls = m \<and> \<not> has_returned_every_line s'"
    using s'(1) by blast
qed

theorem has_returned_every_line_spec_witness:
  "(0::int) < 4 \<and> map utf_8 new_lines = default_new_lines \<and>
   line_count ''one\<newline>two\<newline>three'' = 3 \<and>
   map_option (map_sum id fst) (next_lines 3 (init ''one\<newline>two\<newline>three'' 4 utf_8))
     = Some (Inr [''three'', ''two'', ''one'']) \<and>
   map_option (map_sum id (has_returned_every_line \<circ> snd))
     (next_lines 3 (init ''one\<newline>two\<newline>three'' 4 utf_8)) = Some (Inr True) \<and>
   map_option (map_sum id (has_returned_every_line \<circ> snd))
     (next_lines 2 (init ''one\<newline>two\<newline>three'' 4 utf_8)) = Some (Inr False)"
proof -
  let ?f = "''one\<newline>two\<newline>three''"
  have h: "(0::int) < 4" by simp
  have lc: "line_count ?f = 3" by (simp add: line_count_def unterminated_tail_def)
  have l3: "map_option (map_sum id fst) (next_lines 3 (init ?f 4 utf_8))
     = Some (Inr [''three'', ''two'', ''one''])" by code_simp
  note t = has_returned_every_line_spec [OF h map_utf_8_new_lines, of "init [] 4 utf_8" ?f, unfolded lc]
  from t obtain ls s' where "next_lines 3 (init ?f 4 utf_8) = Some (Inr (ls, s'))"
    "has_returned_every_line s'" by blast
  then have a: "map_option (map_sum id (has_returned_every_line \<circ> snd))
     (next_lines 3 (init ?f 4 utf_8)) = Some (Inr True)" by simp
  have "(2::nat) < 3" by simp
  with t have "\<exists>ls s'. next_lines 2 (init ?f 4 utf_8) = Some (Inr (ls, s')) \<and>
            length ls = 2 \<and> \<not> has_returned_every_line s'" by blast
  then obtain ls2 s2 where "next_lines 2 (init ?f 4 utf_8) = Some (Inr (ls2, s2))"
    "\<not> has_returned_every_line s2" by blast
  then have b: "map_option (map_sum id (has_returned_every_line \<circ> snd))
     (next_lines 2 (init ?f 4 utf_8)) = Some (Inr False)" by simp
  from h lc l3 a b show ?thesis by simp
qed

text \<open>
  A buffer that is present but empty does not count as absent: the object that
  \<open>read_until_yieldable\<close> leaves on the empty file has \<open>read_position = 0\<close> and the empty
  byte string as buffer, and \<open>has_returned_every_line\<close> is false on it.
\<close>

theorem has_returned_empty_buffer_counterexample:
  "read_position ((init [] 1 utf_8)\<lparr>read_buffer := Some []\<rparr>) = 0 \<and>
   read_buffer ((init [] 1 utf_8)\<lparr>read_buffer := Some []\<rparr>) = Some [] \<and>
   \<not> has_returned_every_line ((init [] 1 utf_8)\<lparr>read_buffer := Some []\<rparr>) \<and>
   reachable [] 1 utf_8 ((init [] 1 utf_8)\<lparr>read_buffer := Some []\<rparr>)"
proof -
  let ?s = "init [] 1 utf_8"
  have y0: "yieldable ?s = Inr False" by (simp add: yieldable_def init_def)
  have g: "get_next_chunk (fp ?s) (read_position ?s) (chunk_size ?s) (new_lines_bytes ?s) = ([], 0)"
    by (simp add: get_next_chunk_def get_what_to_read_next_def walk_back.simps init_def
        get_file_size_def seek_read_def)
  have a: "add_to_buffer ?s [] 0 = ?s\<lparr>read_buffer := Some []\<rparr>"
    by (simp add: add_to_buffer_def init_def get_file_size_def)
  have y1: "yieldable (?s\<lparr>read_buffer := Some []\<rparr>) = Inr True"
    using yieldable_default [of "?s\<lparr>read_buffer := Some []\<rparr>"]
    by (simp add: init_def get_file_size_def)
  have "read_until_yieldable ?s = read_until_yieldable (?s\<lparr>read_buffer := Some []\<rparr>)"
    using y0 g a by (simp add: read_until_yieldable.simps [of ?s])
  also have "\<dots> = Some (Inr (?s\<lparr>read_buffer := Some []\<rparr>))"
    using y1 by (simp add: read_until_yieldable.simps [of "?s\<lparr>read_buffer := Some []\<rparr>"])
  finally have "reachable [] 1 utf_8 (?s\<lparr>read_buffer := Some []\<rparr>)"
    using reachable.fill [OF reachable.start] by blast
  then show ?thesis
    by (simp add: has_returned_every_line_def init_def get_file_size_def)
qed

text \<open>
  Claim C10, on the same UTF-32 file held whole in the buffer.  \<open>return_line\<close> finds the
  terminator at position \<open>4\<close> and leaves the buffer \<open>00 00 00 a 00\<close>: it ends with the
  first byte of the terminator, not with a terminator, and the next trailing strip removes
  nothing.
\<close>

theorem residual_buffer_utf_32:
  "find_furthest_new_line
     (remove_trailing_new_line (utf_32_be [CHR ''a'', LF, CHR ''b'']) (map utf_32_be new_lines))
     (map utf_32_be new_lines) = Inr 4 \<and>
   map_sum id (read_buffer \<circ> snd)
     (return_line ((init (utf_32_be [CHR ''a'', LF, CHR ''b'']) 100 utf_32_be)
      \<lparr>read_position := 0, read_buffer := Some (utf_32_be [CHR ''a'', LF, CHR ''b''])\<rparr>)) =
     Inr (Some [CHR 0x00, CHR 0x00, CHR 0x00, CHR ''a'', CHR 0x00]) \<and>
   remove_trailing_new_line [CHR 0x00, CHR 0x00, CHR 0x00, CHR ''a'', CHR 0x00]
     (map utf_32_be new_lines) = [CHR 0x00, CHR 0x00, CHR 0x00, CHR ''a'', CHR 0x00]"
  by code_simp

end
